theory Spec2Isabelle
  imports Main "HOL-Library.Word"
begin

unbundle bit_operations_syntax

section \<open>Data model\<close>

text \<open>
  Go's \<open>net.IP\<close> and \<open>net.IPMask\<close> are both \<open>[]byte\<close>: a list of 8-bit words.
  A nil slice and an empty slice are both the empty list: the source compares with
  \<open>nil\<close> only slices that are either nil or hold 4 or 16 bytes.
  An index out of range is a run-time panic in Go; it is the error value
  \<open>IndexOutOfRange\<close> here. \<open>ParseError kind text\<close> is \<open>net.ParseError\<close>
  with its fields \<open>Type\<close> and \<open>Text\<close>.
\<close>

type_synonym byte = "8 word"
type_synonym bytes = "byte list"

datatype error = ParseError string string | IndexOutOfRange

subsection \<open>The standard library's \<open>To4\<close> and \<open>Equal\<close>\<close>

text \<open>
  \<open>net.IP.To4\<close>: a 4-byte slice is returned as it is, a 16-byte slice that starts with
  ten zero bytes and two \<open>0xff\<close> bytes (an IPv4-mapped address) gives its last four
  bytes, anything else gives nil.
\<close>

definition To4 :: "bytes \<Rightarrow> bytes" where
  "To4 ip =
     (if length ip = 4 then ip
      else if length ip = 16 \<and> take 10 ip = replicate 10 0 \<and> ip ! 10 = 0xff \<and> ip ! 11 = 0xff
      then drop 12 ip
      else [])"

definition v4InV6Prefix :: bytes where
  "v4InV6Prefix = [0, 0, 0, 0, 0, 0, 0, 0, 0, 0, 0xff, 0xff]"

text \<open>\<open>net.IP.Equal\<close>: an IPv4 address and its 16-byte IPv4-mapped form are equal.\<close>

definition Equal :: "bytes \<Rightarrow> bytes \<Rightarrow> bool" where
  "Equal ip x =
     (if length ip = length x then ip = x
      else if length ip = 4 \<and> length x = 16 then take 12 x = v4InV6Prefix \<and> ip = drop 12 x
      else if length ip = 16 \<and> length x = 4 then take 12 ip = v4InV6Prefix \<and> drop 12 ip = x
      else False)"

section \<open>Package ipcalc\<close>

definition CopyIP :: "bytes \<Rightarrow> bytes" where
  "CopyIP ip = [] @ ip"

definition IP :: "bytes \<Rightarrow> bytes" where
  "IP ip = (let x = To4 ip in if x \<noteq> [] then CopyIP x else CopyIP ip)"

definition IPVersion :: "bytes \<Rightarrow> nat" where
  "IPVersion ip = (if length (IP ip) = 4 then 4 else 6)"

definition IPSize :: "bytes \<Rightarrow> nat" where
  "IPSize ip = (if IPVersion ip = 4 then 4 else 16)"

definition Complement :: "bytes \<Rightarrow> bytes" where
  "Complement msk = (if msk = [] then [] else map (\<lambda>b. NOT b) msk)"

subsection \<open>NextIP and PrevIP\<close>

text \<open>
  The loops \<open>for i := n - 1; i >= 0; i--\<close> are recursions on \<open>i + 1\<close>: the argument
  \<open>Suc i\<close> is the iteration at index \<open>i\<close>, and \<open>0\<close> is the end of the loop.
  \<open>incr_loop\<close> is the body \<open>ip[i]++; if ip[i] != 0x00 { break }\<close>, \<open>decr_loop\<close> the
  body \<open>ip[i]--; if ip[i] != 0xff { break }\<close>.
\<close>

fun incr_loop :: "nat \<Rightarrow> bytes \<Rightarrow> error + bytes" where
  "incr_loop 0 ip = Inr ip"
| "incr_loop (Suc i) ip =
     (if length ip \<le> i then Inl IndexOutOfRange
      else let ip' = ip[i := ip ! i + 1]
           in if ip' ! i \<noteq> 0x00 then Inr ip' else incr_loop i ip')"

fun decr_loop :: "nat \<Rightarrow> bytes \<Rightarrow> error + bytes" where
  "decr_loop 0 ip = Inr ip"
| "decr_loop (Suc i) ip =
     (if length ip \<le> i then Inl IndexOutOfRange
      else let ip' = ip[i := ip ! i - 1]
           in if ip' ! i \<noteq> 0xff then Inr ip' else decr_loop i ip')"

definition NextIP :: "bytes \<Rightarrow> error + bytes" where
  "NextIP ip0 = (let ip = IP ip0 in incr_loop (IPSize ip) ip)"

definition PrevIP :: "bytes \<Rightarrow> error + bytes" where
  "PrevIP ip0 = (let ip = IP ip0 in decr_loop (IPSize ip) ip)"

subsection \<open>Add and Substract\<close>

text \<open>
  One iteration of the outer loop reads \<open>a[i]\<close>, \<open>b[i]\<close> and \<open>mask[i]\<close>; the inner
  carry (borrow) loop over \<open>j = i - 1 .. 0\<close> is the loop of NextIP (PrevIP) again.
\<close>

fun add_loop :: "nat \<Rightarrow> bytes \<Rightarrow> bytes \<Rightarrow> bytes \<Rightarrow> error + bytes" where
  "add_loop 0 a b msk = Inr a"
| "add_loop (Suc i) a b msk =
     (if length a \<le> i \<or> length b \<le> i \<or> length msk \<le> i then Inl IndexOutOfRange
      else let prev = a ! i;
               a' = a[i := a ! i + (b ! i AND msk ! i)]
           in if a' ! i < prev \<and> 0 < i
              then (case incr_loop i a' of Inl e \<Rightarrow> Inl e | Inr a'' \<Rightarrow> add_loop i a'' b msk)
              else add_loop i a' b msk)"

fun sub_loop :: "nat \<Rightarrow> bytes \<Rightarrow> bytes \<Rightarrow> bytes \<Rightarrow> error + bytes" where
  "sub_loop 0 a b msk = Inr a"
| "sub_loop (Suc i) a b msk =
     (if length a \<le> i \<or> length b \<le> i \<or> length msk \<le> i then Inl IndexOutOfRange
      else let prev = a ! i;
               a' = a[i := a ! i - (b ! i AND msk ! i)]
           in if prev < a' ! i \<and> 0 < i
              then (case decr_loop i a' of Inl e \<Rightarrow> Inl e | Inr a'' \<Rightarrow> sub_loop i a'' b msk)
              else sub_loop i a' b msk)"

definition Add :: "bytes \<Rightarrow> bytes \<Rightarrow> bytes \<Rightarrow> error + bytes" where
  "Add a b msk = add_loop (length msk) (IP a) (IP b) msk"

definition Substract :: "bytes \<Rightarrow> bytes \<Rightarrow> bytes \<Rightarrow> error + bytes" where
  "Substract a b msk = sub_loop (length msk) (IP a) (IP b) msk"

subsection \<open>And, Or, Xor\<close>

text \<open>
  The three functions share the loop \<open>for i := 0; i < IPSize(b); i++ { a[i] op= b[i] }\<close>;
  \<open>bitop_loop op i n\<close> runs it from index \<open>i\<close> up to \<open>n\<close>.
\<close>

function bitop_loop :: "(byte \<Rightarrow> byte \<Rightarrow> byte) \<Rightarrow> nat \<Rightarrow> nat \<Rightarrow> bytes \<Rightarrow> bytes \<Rightarrow> error + bytes" where
  "bitop_loop f i n a b =
     (if i < n
      then (if length a \<le> i \<or> length b \<le> i then Inl IndexOutOfRange
            else bitop_loop f (Suc i) n (a[i := f (a ! i) (b ! i)]) b)
      else Inr a)"
  by pat_completeness auto
termination
  by (relation "measure (\<lambda>(f, i, n, a, b). n - i)") auto

declare bitop_loop.simps [simp del]

definition And :: "bytes \<Rightarrow> bytes \<Rightarrow> error + bytes" where
  "And a b = bitop_loop (\<lambda>x y. x AND y) 0 (IPSize (IP b)) (IP a) (IP b)"

definition Or :: "bytes \<Rightarrow> bytes \<Rightarrow> error + bytes" where
  "Or a b = bitop_loop (\<lambda>x y. x OR y) 0 (IPSize (IP b)) (IP a) (IP b)"

definition Xor :: "bytes \<Rightarrow> bytes \<Rightarrow> error + bytes" where
  "Xor a b = bitop_loop (\<lambda>x y. x XOR y) 0 (IPSize (IP b)) (IP a) (IP b)"


subsection \<open>Merge\<close>

function merge_loop :: "nat \<Rightarrow> bytes \<Rightarrow> bytes \<Rightarrow> bytes \<Rightarrow> bytes \<Rightarrow> error + bytes" where
  "merge_loop i ip a b msk =
     (if i < length msk
      then (if length a \<le> i \<or> length b \<le> i then Inl IndexOutOfRange
            else merge_loop (Suc i) (ip[i := (a ! i AND NOT (msk ! i)) OR (b ! i AND msk ! i)]) a b msk)
      else Inr ip)"
  by pat_completeness auto
termination
  by (relation "measure (\<lambda>(i, ip, a, b, msk). length msk - i)") auto

declare merge_loop.simps [simp del]

definition Merge :: "bytes \<Rightarrow> bytes \<Rightarrow> bytes \<Rightarrow> error + bytes" where
  "Merge a b msk = merge_loop 0 (replicate (length msk) 0) (IP a) (IP b) msk"

section \<open>Parsing\<close>

subsection \<open>The standard library's \<open>strings.Split\<close>, \<open>strconv.Atoi\<close> and \<open>net.CIDRMask\<close>\<close>

text \<open>
  \<open>Split c s\<close> is \<open>strings.Split(s, sep)\<close> for the one-character separator \<open>c\<close>:
  the pieces between the separators, in order; one piece more than there are separators.
\<close>

fun Split :: "char \<Rightarrow> string \<Rightarrow> string list" where
  "Split c [] = [[]]"
| "Split c (x # xs) =
     (if x = c then [] # Split c xs
      else (case Split c xs of [] \<Rightarrow> [[x]] | p # ps \<Rightarrow> (x # p) # ps))"

definition HasPrefix :: "string \<Rightarrow> string \<Rightarrow> bool" where
  "HasPrefix s p = (take (length p) s = p)"

text \<open>
  \<open>strconv.Atoi\<close> on a 64-bit platform: an optional sign, then one decimal digit or more
  and nothing else; a value outside the range of \<open>int\<close> is an error.
\<close>

definition is_digit :: "char \<Rightarrow> bool" where
  "is_digit c = (48 \<le> (of_char c :: nat) \<and> (of_char c :: nat) \<le> 57)"

definition digits_value :: "string \<Rightarrow> int" where
  "digits_value ds = foldl (\<lambda>n c. n * 10 + (int (of_char c) - 48)) 0 ds"

definition Atoi :: "string \<Rightarrow> int option" where
  "Atoi s =
     (let neg = (take 1 s = ''-'');
          ds = (if take 1 s = ''-'' \<or> take 1 s = ''+'' then drop 1 s else s)
      in if ds = [] \<or> \<not> list_all is_digit ds then None
         else let n = (if neg then - digits_value ds else digits_value ds)
              in if n < - (2 ^ 63) \<or> 2 ^ 63 - 1 < n then None else Some n)"

text \<open>
  \<open>net.CIDRMask(ones, bits)\<close>: nil unless \<open>bits\<close> is 32 or 128 and
  \<open>0 \<le> ones \<le> bits\<close>; otherwise \<open>bits / 8\<close> bytes whose first \<open>ones\<close> bits are set.
\<close>

fun cidr_bytes :: "nat \<Rightarrow> nat \<Rightarrow> bytes" where
  "cidr_bytes 0 n = []"
| "cidr_bytes (Suc l) n =
     (if 8 \<le> n then 0xff # cidr_bytes l (n - 8)
      else NOT (drop_bit n 0xff) # cidr_bytes l 0)"

definition CIDRMask :: "int \<Rightarrow> int \<Rightarrow> bytes" where
  "CIDRMask ones bits =
     (if bits \<noteq> 32 \<and> bits \<noteq> 128 then []
      else if ones < 0 \<or> bits < ones then []
      else cidr_bytes (nat (bits div 8)) (nat ones))"

subsection \<open>ParseMask and ParseIPMask\<close>

text \<open>
  \<open>net.ParseIP\<close> is the standard library's and is a parameter \<open>parseIP\<close> of the two
  functions that call it: it returns nil or a 16-byte address (an IPv4 address in its
  IPv4-mapped form).
\<close>

definition ParseMask :: "(string \<Rightarrow> bytes) \<Rightarrow> string \<Rightarrow> bytes" where
  "ParseMask parseIP s = IP (parseIP s)"

definition ParseIPMask :: "(string \<Rightarrow> bytes) \<Rightarrow> string \<Rightarrow> error + bytes \<times> bytes" where
  "ParseIPMask parseIP addr =
     (let v = Split CHR ''/'' addr;
          ip = parseIP (v ! 0)
      in if ip = [] then Inl (ParseError ''IP address'' (v ! 0))
         else if 2 < length v then Inl (ParseError ''IP/Mask'' addr)
         else if length v = 2 then
           (let size = IPSize ip * 8;
                wildcard = HasPrefix (v ! 1) ''~'';
                v1 = (if wildcard then drop 1 (v ! 1) else v ! 1);
                m = (case Atoi v1 of
                       Some bits \<Rightarrow> CIDRMask bits (int size)
                     | None \<Rightarrow> ParseMask parseIP v1);
                m' = (if wildcard then Complement m else m)
            in if m' = [] then Inl (ParseError ''Mask'' v1) else Inr (ip, m'))
         else Inr (ip, []))"

text \<open>
  The dotted-decimal half of \<open>net.ParseIP\<close>: four decimal fields from 0 to 255
  separated by dots, none with a leading zero; the result is the 16-byte IPv4-mapped
  address. Any other text gives nil here.
\<close>

definition dec_field :: "string \<Rightarrow> bool" where
  "dec_field f =
     (f \<noteq> [] \<and> list_all is_digit f \<and> digits_value f \<le> 255 \<and> (length f = 1 \<or> take 1 f \<noteq> ''0''))"

definition parseIPv4 :: "string \<Rightarrow> bytes" where
  "parseIPv4 s =
     (let fs = Split CHR ''.'' s
      in if length fs = 4 \<and> list_all dec_field fs
         then v4InV6Prefix @ map (\<lambda>f. word_of_int (digits_value f)) fs
         else [])"

section \<open>Package wildcard\<close>

text \<open>
  The struct \<open>Wildcard{ip, bits, mask}\<close>; the fields carry a prefix since \<open>mask\<close> is a
  constant of the word library. No two fields of a Wildcard built by the functions
  below share storage: each is a fresh copy.
\<close>

record Wildcard =
  w_ip :: bytes
  w_bits :: bytes
  w_mask :: bytes

definition New :: "bytes \<Rightarrow> bytes \<Rightarrow> error + Wildcard" where
  "New ip0 wildcard =
     (let ip = IP ip0;
          msk = IP (Complement wildcard)
      in case And ip msk of
           Inl e \<Rightarrow> Inl e
         | Inr bs \<Rightarrow> Inr \<lparr>w_ip = ip, w_bits = bs, w_mask = msk\<rparr>)"

text \<open>
  The methods \<open>IP()\<close> and \<open>Wildcard()\<close> of a Wildcard are \<open>Wildcard_IP\<close> and
  \<open>Wildcard_Wildcard\<close>, since \<open>IP\<close> is the function of package ipcalc.
\<close>

definition Wildcard_IP :: "Wildcard \<Rightarrow> bytes" where
  "Wildcard_IP w = w_ip w"

definition Wildcard_Wildcard :: "Wildcard \<Rightarrow> bytes" where
  "Wildcard_Wildcard w = Complement (w_mask w)"

definition Matches :: "Wildcard \<Rightarrow> bytes \<Rightarrow> error + bool" where
  "Matches w ip =
     (case And ip (w_mask w) of
        Inl e \<Rightarrow> Inl e
      | Inr r \<Rightarrow> Inr (Equal r (w_bits w)))"

definition First :: "Wildcard \<Rightarrow> Wildcard" where
  "First w = \<lparr>w_ip = IP (w_bits w), w_bits = IP (w_bits w), w_mask = IP (w_mask w)\<rparr>"

definition Last :: "Wildcard \<Rightarrow> error + Wildcard" where
  "Last w =
     (case Or (w_bits w) (Complement (w_mask w)) of
        Inl e \<Rightarrow> Inl e
      | Inr r \<Rightarrow> Inr \<lparr>w_ip = r, w_bits = IP (w_bits w), w_mask = IP (w_mask w)\<rparr>)"

text \<open>\<open>bit(b, i)\<close> of the source: \<open>b>>i&1 == 1\<close>.\<close>

definition bit_of :: "byte \<Rightarrow> nat \<Rightarrow> bool" where
  "bit_of b i = (drop_bit i b AND 1 = 1)"

text \<open>
  \<open>Next\<close> and \<open>Prev\<close> have a pointer receiver and write the cursor \<open>w.ip\<close> in place:
  the model returns the address together with the Wildcard after the call.
  \<open>next_bits i j\<close> is the inner loop over the bits \<open>j .. 7\<close> of byte \<open>i\<close>; its result
  \<open>(True, ip)\<close> is the \<open>return w.ip\<close> inside the loop, \<open>(False, ip)\<close> the end of the
  inner loop. \<open>next_bytes (Suc i)\<close> is the iteration of the outer loop at byte \<open>i\<close>.
\<close>

function next_bits :: "nat \<Rightarrow> nat \<Rightarrow> bytes \<Rightarrow> bytes \<Rightarrow> error + bool \<times> bytes" where
  "next_bits i j msk ip =
     (if j < 8
      then (if length msk \<le> i then Inl IndexOutOfRange
            else if bit_of (msk ! i) j then next_bits i (Suc j) msk ip
            else if length ip \<le> i then Inl IndexOutOfRange
            else if \<not> bit_of (ip ! i) j then Inr (True, ip[i := ip ! i OR push_bit j 1])
            else next_bits i (Suc j) msk (ip[i := ip ! i AND NOT (push_bit j 1)]))
      else Inr (False, ip))"
  by pat_completeness auto
termination
  by (relation "measure (\<lambda>(i, j, msk, ip). 8 - j)") auto

declare next_bits.simps [simp del]

fun next_bytes :: "nat \<Rightarrow> bytes \<Rightarrow> bytes \<Rightarrow> error + bytes" where
  "next_bytes 0 msk ip = Inr ip"
| "next_bytes (Suc i) msk ip =
     (case next_bits i 0 msk ip of
        Inl e \<Rightarrow> Inl e
      | Inr (True, ip') \<Rightarrow> Inr ip'
      | Inr (False, ip') \<Rightarrow> next_bytes i msk ip')"

definition Next :: "Wildcard \<Rightarrow> error + bytes \<times> Wildcard" where
  "Next w =
     (case next_bytes (IPSize (w_ip w)) (w_mask w) (w_ip w) of
        Inl e \<Rightarrow> Inl e
      | Inr ip' \<Rightarrow> Inr (ip', w\<lparr>w_ip := ip'\<rparr>))"

function prev_bits :: "nat \<Rightarrow> nat \<Rightarrow> bytes \<Rightarrow> bytes \<Rightarrow> error + bool \<times> bytes" where
  "prev_bits i j msk ip =
     (if j < 8
      then (if length msk \<le> i then Inl IndexOutOfRange
            else if bit_of (msk ! i) j then prev_bits i (Suc j) msk ip
            else if length ip \<le> i then Inl IndexOutOfRange
            else if bit_of (ip ! i) j then Inr (True, ip[i := ip ! i AND NOT (push_bit j 1)])
            else prev_bits i (Suc j) msk (ip[i := ip ! i OR push_bit j 1]))
      else Inr (False, ip))"
  by pat_completeness auto
termination
  by (relation "measure (\<lambda>(i, j, msk, ip). 8 - j)") auto

declare prev_bits.simps [simp del]

fun prev_bytes :: "nat \<Rightarrow> bytes \<Rightarrow> bytes \<Rightarrow> error + bytes" where
  "prev_bytes 0 msk ip = Inr ip"
| "prev_bytes (Suc i) msk ip =
     (case prev_bits i 0 msk ip of
        Inl e \<Rightarrow> Inl e
      | Inr (True, ip') \<Rightarrow> Inr ip'
      | Inr (False, ip') \<Rightarrow> prev_bytes i msk ip')"

definition Prev :: "Wildcard \<Rightarrow> error + bytes \<times> Wildcard" where
  "Prev w =
     (case prev_bytes (IPSize (w_ip w)) (w_mask w) (w_ip w) of
        Inl e \<Rightarrow> Inl e
      | Inr ip' \<Rightarrow> Inr (ip', w\<lparr>w_ip := ip'\<rparr>))"

text \<open>
  \<open>findWildcard\<close> and the loop of \<open>FindWildcard\<close> over the extra addresses: each round
  replaces both \<open>and\<close> and \<open>xor\<close> by the results of \<open>findWildcard(and, ip)\<close>.
\<close>

definition findWildcard :: "bytes \<Rightarrow> bytes \<Rightarrow> error + bytes \<times> bytes" where
  "findWildcard a b =
     (case And a b of
        Inl e \<Rightarrow> Inl e
      | Inr x \<Rightarrow> (case Xor a b of Inl e \<Rightarrow> Inl e | Inr y \<Rightarrow> Inr (x, y)))"

fun find_loop :: "bytes \<times> bytes \<Rightarrow> bytes list \<Rightarrow> error + bytes \<times> bytes" where
  "find_loop (and_acc, xor_acc) [] = Inr (and_acc, xor_acc)"
| "find_loop (and_acc, xor_acc) (ip # extra) =
     (case findWildcard and_acc ip of
        Inl e \<Rightarrow> Inl e
      | Inr r \<Rightarrow> find_loop r extra)"

definition FindWildcard :: "bytes \<Rightarrow> bytes \<Rightarrow> bytes list \<Rightarrow> error + Wildcard" where
  "FindWildcard a b extra =
     (case findWildcard a b of
        Inl e \<Rightarrow> Inl e
      | Inr r \<Rightarrow> (case find_loop r extra of
                    Inl e \<Rightarrow> Inl e
                  | Inr (and_acc, xor_acc) \<Rightarrow> New and_acc xor_acc))"

section \<open>Specification vocabulary\<close>

text \<open>
  The big-endian value of a byte sequence: the first byte is the most significant.
\<close>

fun be_val :: "bytes \<Rightarrow> int" where
  "be_val [] = 0"
| "be_val (x # xs) = uint x * 256 ^ length xs + be_val xs"

text \<open>
  The two 16-byte addresses next to the IPv4-mapped range \<open>::ffff:0:0/96\<close>:
  \<open>::fffe:ffff:ffff\<close> just below it and \<open>0:0:0:0:1::\<close> just above it.
\<close>

definition lastBelowMapped :: bytes where
  "lastBelowMapped = [0, 0, 0, 0, 0, 0, 0, 0, 0, 0, 0xff, 0xfe, 0xff, 0xff, 0xff, 0xff]"

definition firstAboveMapped :: bytes where
  "firstAboveMapped = [0, 0, 0, 0, 0, 0, 0, 0, 0, 1, 0, 0, 0, 0, 0, 0]"

text \<open>
  The stepping of a Wildcard, told on bits. \<open>scan_bits\<close> lists the bits of a byte
  sequence in the order in which \<open>Next\<close> and \<open>Prev\<close> scan them: the last byte first,
  and in each byte bit 0 first. On two such lists, the care mask and the cursor,
  \<open>bit_step\<close> is one call of \<open>Next\<close>: it skips a care bit, sets the first clear
  don't-care bit and stops there (\<open>True\<close>), and clears every set don't-care bit on the
  way; \<open>False\<close> says that the scan ran off the end. \<open>free_value\<close> reads the
  don't-care bits of the cursor as a binary number, \<open>care_bits\<close> keeps the care bits
  only, and \<open>free_count\<close> counts the don't-care bits.
\<close>

definition byte_bits :: "byte \<Rightarrow> bool list" where
  "byte_bits b = map (\<lambda>j. bit b j) [0..<8]"

definition scan_bits :: "bytes \<Rightarrow> bool list" where
  "scan_bits xs = concat (map byte_bits (rev xs))"

fun bit_step :: "bool list \<Rightarrow> bool list \<Rightarrow> bool \<times> bool list" where
  "bit_step (m # ms) (b # bs) =
     (if m then (fst (bit_step ms bs), b # snd (bit_step ms bs))
      else if \<not> b then (True, True # bs)
      else (fst (bit_step ms bs), False # snd (bit_step ms bs)))"
| "bit_step ms bs = (False, bs)"

fun free_value :: "bool list \<Rightarrow> bool list \<Rightarrow> nat" where
  "free_value (m # ms) (b # bs) = (if m then free_value ms bs else (if b then 1 else 0) + 2 * free_value ms bs)"
| "free_value ms bs = 0"

fun care_bits :: "bool list \<Rightarrow> bool list \<Rightarrow> bool list" where
  "care_bits (m # ms) (b # bs) = (m \<and> b) # care_bits ms bs"
| "care_bits ms bs = []"

definition free_count :: "bool list \<Rightarrow> nat" where
  "free_count ms = length (filter (\<lambda>m. \<not> m) ms)"


text \<open>\<open>bit_back\<close> is one call of \<open>Prev\<close> on the same two bit lists.\<close>

fun bit_back :: "bool list \<Rightarrow> bool list \<Rightarrow> bool \<times> bool list" where
  "bit_back (m # ms) (b # bs) =
     (if m then (fst (bit_back ms bs), b # snd (bit_back ms bs))
      else if b then (True, False # bs)
      else (fst (bit_back ms bs), True # snd (bit_back ms bs)))"
| "bit_back ms bs = (False, bs)"

text \<open>\<open>Next_times n\<close> calls \<open>Next\<close> \<open>n\<close> times in a row on the same Wildcard.\<close>

fun Next_times :: "nat \<Rightarrow> Wildcard \<Rightarrow> error + Wildcard" where
  "Next_times 0 w = Inr w"
| "Next_times (Suc n) w =
     (case Next w of Inl e \<Rightarrow> Inl e | Inr (ip, w') \<Rightarrow> Next_times n w')"

text \<open>
  A well-formed Wildcard: the three fields have the same length, 4 or 16 bytes, and the
  fixed bits are the cursor under the care mask. For 16 bytes, neither the care mask, nor
  the wildcard mask, nor any address that agrees with the fixed bits on the care bits is
  an IPv4-mapped address: neither mask starts with the prefix \<open>::ffff:0:0/96\<close>, and
  the prefix differs from the fixed bits on a care bit of the first twelve bytes.
\<close>

definition well_formed :: "Wildcard \<Rightarrow> bool" where
  "well_formed w =
     (length (w_ip w) = length (w_mask w) \<and> length (w_bits w) = length (w_mask w)
      \<and> map2 (\<lambda>x y. x AND y) (w_ip w) (w_mask w) = w_bits w
      \<and> (length (w_mask w) = 4
           \<or> (length (w_mask w) = 16 \<and> take 12 (w_mask w) \<noteq> v4InV6Prefix
               \<and> take 12 (Complement (w_mask w)) \<noteq> v4InV6Prefix
               \<and> map2 (\<lambda>x y. x AND y) v4InV6Prefix (take 12 (w_mask w)) \<noteq> take 12 (w_bits w))))"

text \<open>The number of don't-care bits: the bits that are clear in the care mask.\<close>

definition dont_care_bits :: "Wildcard \<Rightarrow> nat" where
  "dont_care_bits w = free_count (scan_bits (w_mask w))"

section \<open>Canonical form and the bitwise operations\<close>

lemma To4_len4 [simp]: "length ip = 4 \<Longrightarrow> To4 ip = ip"
  by (simp add: To4_def)

lemma IP_len4: "length ip = 4 \<Longrightarrow> IP ip = ip"
  by (auto simp: IP_def CopyIP_def)

lemma length_To4: "length (To4 ip) = 4 \<or> To4 ip = []"
  by (auto simp: To4_def)

lemma length_IP_cases: "length (IP ip) = 4 \<or> IP ip = ip"
  using length_To4[of ip] by (auto simp: IP_def CopyIP_def Let_def)

lemma IP_idem: "IP (IP ip) = IP ip"
  using length_IP_cases[of ip] by (auto simp: IP_len4)

lemma IPSize_4: "length (IP ip) = 4 \<Longrightarrow> IPSize ip = 4"
  by (simp add: IPSize_def IPVersion_def)

lemma IPSize_16: "length (IP ip) \<noteq> 4 \<Longrightarrow> IPSize ip = 16"
  by (simp add: IPSize_def IPVersion_def)

lemma bitop_loop_nth:
  "i \<le> n \<Longrightarrow> n \<le> length a \<Longrightarrow> n \<le> length b \<Longrightarrow>
   \<exists>r. bitop_loop f i n a b = Inr r \<and> length r = length a \<and>
       (\<forall>k<length a. r ! k = (if i \<le> k \<and> k < n then f (a ! k) (b ! k) else a ! k))"
proof (induction f i n a b rule: bitop_loop.induct)
  case (1 f i n a b)
  show ?case
  proof (cases "i < n")
    case False
    then show ?thesis by (subst bitop_loop.simps) auto
  next
    case True
    with 1 have ia: "i < length a" and ib: "i < length b" by auto
    let ?a = "a[i := f (a ! i) (b ! i)]"
    have "\<exists>r. bitop_loop f (Suc i) n ?a b = Inr r \<and> length r = length ?a \<and>
       (\<forall>k<length ?a. r ! k = (if Suc i \<le> k \<and> k < n then f (?a ! k) (b ! k) else ?a ! k))"
      using "1.IH" True ia ib "1.prems" by simp
    then obtain r where r: "bitop_loop f (Suc i) n ?a b = Inr r" "length r = length a"
      "\<forall>k<length a. r ! k = (if Suc i \<le> k \<and> k < n then f (?a ! k) (b ! k) else ?a ! k)"
      by auto
    have "bitop_loop f i n a b = Inr r"
      using True ia ib r(1) by (subst bitop_loop.simps) simp
    moreover have "\<forall>k<length a. r ! k = (if i \<le> k \<and> k < n then f (a ! k) (b ! k) else a ! k)"
    proof (intro allI impI)
      fix k assume k: "k < length a"
      show "r ! k = (if i \<le> k \<and> k < n then f (a ! k) (b ! k) else a ! k)"
      proof (cases "k = i")
        case True
        then show ?thesis using r(3) k ia \<open>i < n\<close> by simp
      next
        case False
        then show ?thesis using r(3) k ia by (cases "i < k") auto
      qed
    qed
    ultimately show ?thesis using r(2) by blast
  qed
qed

lemma bitop_loop_eq:
  assumes "n \<le> length a" "n \<le> length b"
  shows "bitop_loop f 0 n a b = Inr (map2 f (take n a) (take n b) @ drop n a)"
proof -
  from bitop_loop_nth[of 0 n a b f] assms obtain r where r: "bitop_loop f 0 n a b = Inr r"
    "length r = length a" "\<forall>k<length a. r ! k = (if k < n then f (a ! k) (b ! k) else a ! k)"
    by auto
  have "r = map2 f (take n a) (take n b) @ drop n a"
  proof (rule nth_equalityI)
    show "length r = length (map2 f (take n a) (take n b) @ drop n a)"
      using r(2) assms by simp
  next
    fix k assume "k < length r"
    then have k: "k < length a" using r(2) by simp
    show "r ! k = (map2 f (take n a) (take n b) @ drop n a) ! k"
      using r(3) k assms by (auto simp: nth_append)
  qed
  with r(1) show ?thesis by simp
qed

text \<open>
  Claim C6, as amended. When the canonical form of \<open>a\<close> has 16 bytes and that of \<open>b\<close>
  has 4, \<open>And\<close>, \<open>Or\<close> and \<open>Xor\<close> return without error a result of 16 bytes, the
  length of \<open>a\<close>: its first four bytes are those of \<open>a\<close> combined with \<open>b\<close>, its last
  twelve bytes are those of \<open>a\<close> unchanged. Nothing is truncated to the length of \<open>b\<close>.
\<close>

theorem bitops_mixed_length:
  assumes "length (IP a) = 16" and "length (IP b) = 4"
  shows "And a b = Inr (map2 (\<lambda>x y. x AND y) (take 4 (IP a)) (IP b) @ drop 4 (IP a))
       \<and> Or a b = Inr (map2 (\<lambda>x y. x OR y) (take 4 (IP a)) (IP b) @ drop 4 (IP a))
       \<and> Xor a b = Inr (map2 (\<lambda>x y. x XOR y) (take 4 (IP a)) (IP b) @ drop 4 (IP a))"
proof -
  have s: "IPSize (IP b) = 4" using assms(2) by (simp add: IPSize_4 IP_idem)
  have "bitop_loop f 0 4 (IP a) (IP b) = Inr (map2 f (take 4 (IP a)) (IP b) @ drop 4 (IP a))" for f
    using bitop_loop_eq[of 4 "IP a" "IP b" f] assms by simp
  then show ?thesis by (simp add: And_def Or_def Xor_def s)
qed

text \<open>
  Claim C6 as stated fails: the AND of the 16-byte 2001:db8::1 with the 4-byte 255.0.255.0
  has 16 bytes, not 4.
\<close>

theorem And_mixed_length_counterexample: "And [0x20, 0x01, 0x0d, 0xb8, 0, 0, 0, 0, 0, 0, 0, 0, 0, 0, 0, 1] [255, 0, 255, 0]
     = Inr [0x20, 0, 0x0d, 0, 0, 0, 0, 0, 0, 0, 0, 0, 0, 0, 0, 1]
   \<and> length [0x20, 0, 0x0d, 0, 0, 0, 0, 0, 0, 0, 0, 0, 0, 0, 0, 1 :: byte] \<noteq> length (IP [255, 0, 255, 0])"
  by code_simp


theorem bitops_mixed_length_witness:
  "length (IP [0x20, 0x01, 0x0d, 0xb8, 0, 0, 0, 0, 0, 0, 0, 0, 0, 0, 0, 1]) = 16
   \<and> length (IP [255, 0, 255, 0]) = 4
   \<and> Or [0x20, 0x01, 0x0d, 0xb8, 0, 0, 0, 0, 0, 0, 0, 0, 0, 0, 0, 1] [255, 0, 255, 0]
       = Inr [255, 0x01, 255, 0xb8, 0, 0, 0, 0, 0, 0, 0, 0, 0, 0, 0, 1]"
proof -
  have a: "length (IP [0x20, 0x01, 0x0d, 0xb8, 0, 0, 0, 0, 0, 0, 0, 0, 0, 0, 0, 1]) = 16"
    by code_simp
  have b: "length (IP [255, 0, 255, 0]) = 4"
    by code_simp
  have c: "map2 (\<lambda>x y. x OR y) (take 4 (IP [0x20, 0x01, 0x0d, 0xb8, 0, 0, 0, 0, 0, 0, 0, 0, 0, 0, 0, 1]))
             (IP [255, 0, 255, 0])
           @ drop 4 (IP [0x20, 0x01, 0x0d, 0xb8, 0, 0, 0, 0, 0, 0, 0, 0, 0, 0, 0, 1])
           = [255, 0x01, 255, 0xb8, 0, 0, 0, 0, 0, 0, 0, 0, 0, 0, 0, 1]"
    by code_simp
  from bitops_mixed_length [OF a b] a b c show ?thesis by simp
qed

section \<open>Big-endian arithmetic on byte sequences\<close>

lemma be_val_nonneg: "0 \<le> be_val xs"
  by (induction xs) auto

lemma be_val_bound: "be_val xs < 256 ^ length xs"
proof (induction xs)
  case Nil
  then show ?case by simp
next
  case (Cons x xs)
  define B :: int where "B = 256 ^ length xs"
  have "uint x \<le> 255" using uint_bounded[of x] by simp
  moreover have "0 \<le> B" by (simp add: B_def)
  ultimately have "uint x * B \<le> 255 * B"
    by (rule mult_right_mono)
  moreover have "be_val xs < B" using Cons by (simp add: B_def)
  ultimately have "uint x * B + be_val xs < 256 * B" by linarith
  then show ?case by (simp add: B_def)
qed

lemma be_val_update:
  "i < length a \<Longrightarrow> be_val (a[i := y]) = be_val a + (uint y - uint (a ! i)) * 256 ^ (length a - 1 - i)"
proof (induction a arbitrary: i)
  case Nil
  then show ?case by simp
next
  case (Cons x xs)
  show ?case
  proof (cases i)
    case 0
    then show ?thesis by (simp add: algebra_simps)
  next
    case (Suc k)
    with Cons show ?thesis by simp
  qed
qed

lemma be_val_inj: "length xs = length ys \<Longrightarrow> be_val xs = be_val ys \<Longrightarrow> xs = ys"
proof (induction xs ys rule: list_induct2)
  case Nil
  then show ?case by simp
next
  case (Cons x xs y ys)
  let ?B = "256 ^ length xs :: int"
  have B: "0 < ?B" by simp
  have e: "uint x * ?B + be_val xs = uint y * ?B + be_val ys"
    using Cons.prems Cons.hyps by simp
  have bx: "0 \<le> be_val xs" "be_val xs < ?B" by (simp_all add: be_val_nonneg be_val_bound)
  have by': "0 \<le> be_val ys" "be_val ys < ?B"
    using be_val_nonneg[of ys] be_val_bound[of ys] Cons.hyps by simp_all
  have "(uint x * ?B + be_val xs) div ?B = uint x" using bx B by simp
  moreover have "(uint y * ?B + be_val ys) div ?B = uint y" using by' B by simp
  ultimately have xy: "uint x = uint y" using e by simp
  then have "be_val xs = be_val ys" using e by simp
  with Cons.IH xy show ?case by (simp add: word_uint_eq_iff)
qed

lemma byte_range: "0 \<le> uint (x :: byte) \<and> uint x < 256"
  using uint_bounded[of x] by simp

lemma byte_add_mod: "uint (x + v :: byte) = (uint x + uint v) mod 256"
  by (simp add: uint_word_ariths)

lemma byte_sub_mod: "uint (x - v :: byte) = (uint x - uint v) mod 256"
  by (simp add: uint_word_ariths)

lemma byte_add_uint:
  "uint (x + v :: byte) = uint x + uint v - (if x + v < x then 256 else 0)"
proof (cases "uint x + uint v < 256")
  case True
  then have "uint (x + v) = uint x + uint v"
    using byte_range[of x] byte_range[of v] by (simp add: byte_add_mod)
  then show ?thesis using byte_range[of v] by (simp add: word_less_def)
next
  case False
  then have "(uint x + uint v) mod 256 = uint x + uint v - 256"
    using byte_range[of x] byte_range[of v]
    by (smt (verit) minus_mod_self2 mod_pos_pos_trivial)
  then have "uint (x + v) = uint x + uint v - 256" by (simp add: byte_add_mod)
  then show ?thesis using byte_range[of v] by (simp add: word_less_def)
qed

lemma byte_sub_uint:
  "uint (x - v :: byte) = uint x - uint v + (if x < x - v then 256 else 0)"
proof (cases "uint v \<le> uint x")
  case True
  then have "(uint x - uint v) mod 256 = uint x - uint v"
    using byte_range[of x] byte_range[of v] by (intro mod_pos_pos_trivial) linarith+
  then have "uint (x - v) = uint x - uint v"
    by (simp add: byte_sub_mod)
  then show ?thesis using byte_range[of v] by (simp add: word_less_def)
next
  case False
  then have "(uint x - uint v) mod 256 = uint x - uint v + 256"
    using byte_range[of x] byte_range[of v]
    by (smt (verit) mod_add_self2 mod_pos_pos_trivial)
  then have "uint (x - v) = uint x - uint v + 256" by (simp add: byte_sub_mod)
  then show ?thesis using byte_range[of v] False by (simp add: word_less_def)
qed

lemma byte_succ_uint: "uint (x + 1 :: byte) = (if x + 1 = 0 then uint x - 255 else uint x + 1)"
proof -
  have "uint (x + 1) = (uint x + 1) mod 256" using byte_add_mod[of x 1] by simp
  moreover have "(x + 1 = 0) = (uint (x + 1) = 0)" by (simp add: word_uint_eq_iff)
  ultimately show ?thesis using byte_range[of x]
    by (smt (verit) minus_mod_self2 mod_pos_pos_trivial)
qed

lemma byte_pred_uint: "uint (x - 1 :: byte) = (if x - 1 = 0xff then uint x + 255 else uint x - 1)"
proof -
  have "uint (x - 1) = (uint x - 1) mod 256" using byte_sub_mod[of x 1] by simp
  moreover have "(x - 1 = 0xff) = (uint (x - 1) = 255)" by (simp add: word_uint_eq_iff)
  ultimately show ?thesis using byte_range[of x]
    by (smt (verit) mod_add_self2 mod_pos_pos_trivial)
qed

lemma be_val_mod: "be_val xs mod 256 ^ length xs = be_val xs"
  using be_val_nonneg[of xs] be_val_bound[of xs] by simp

lemma pow_split: "i < L \<Longrightarrow> (256::int) ^ (L - i) = 256 * 256 ^ (L - Suc i)"
  by (metis Suc_diff_Suc power_Suc)

lemma incr_loop_val:
  "n \<le> length ip \<Longrightarrow>
   \<exists>r. incr_loop n ip = Inr r \<and> length r = length ip \<and>
       be_val r = (be_val ip + 256 ^ (length ip - n)) mod 256 ^ length ip"
proof (induction n arbitrary: ip)
  case 0
  have "(be_val ip + 256 ^ length ip) mod 256 ^ length ip = be_val ip"
    using be_val_mod[of ip] by simp
  then show ?case by simp
next
  case (Suc i)
  then have i: "i < length ip" by simp
  let ?ip = "ip[i := ip ! i + 1]"
  let ?W = "256 ^ (length ip - Suc i) :: int"
  have upd: "be_val ?ip = be_val ip + (uint (ip ! i + 1) - uint (ip ! i)) * ?W"
    using be_val_update[OF i, of "ip ! i + 1"] by simp
  show ?case
  proof (cases "ip ! i + 1 = 0")
    case False
    then have "be_val ?ip = be_val ip + ?W"
      using upd by (simp add: byte_succ_uint)
    then have "be_val ?ip = (be_val ip + ?W) mod 256 ^ length ip"
      using be_val_mod[of ?ip] by simp
    moreover have "incr_loop (Suc i) ip = Inr ?ip"
      using i False by simp
    ultimately show ?thesis by simp
  next
    case True
    then have "uint (ip ! i + 1) - uint (ip ! i) = - 255"
      using byte_succ_uint[of "ip ! i"] by simp
    then have v: "be_val ?ip = be_val ip - 255 * ?W"
      using upd by simp
    from Suc.IH[of ?ip] i obtain r where r: "incr_loop i ?ip = Inr r" "length r = length ip"
      "be_val r = (be_val ?ip + 256 ^ (length ip - i)) mod 256 ^ length ip"
      by auto
    have "be_val ?ip + 256 ^ (length ip - i) = be_val ip + ?W"
      using v pow_split[OF i] by simp
    then have "be_val r = (be_val ip + ?W) mod 256 ^ length ip"
      using r(3) by simp
    moreover have "incr_loop (Suc i) ip = Inr r"
      using i True r(1) by simp
    ultimately show ?thesis using r(2) by simp
  qed
qed

lemma decr_loop_val:
  "n \<le> length ip \<Longrightarrow>
   \<exists>r. decr_loop n ip = Inr r \<and> length r = length ip \<and>
       be_val r = (be_val ip - 256 ^ (length ip - n)) mod 256 ^ length ip"
proof (induction n arbitrary: ip)
  case 0
  have "(be_val ip - 256 ^ length ip) mod 256 ^ length ip = be_val ip"
    using be_val_mod[of ip] by simp
  then show ?case by simp
next
  case (Suc i)
  then have i: "i < length ip" by simp
  let ?ip = "ip[i := ip ! i - 1]"
  let ?W = "256 ^ (length ip - Suc i) :: int"
  have upd: "be_val ?ip = be_val ip + (uint (ip ! i - 1) - uint (ip ! i)) * ?W"
    using be_val_update[OF i, of "ip ! i - 1"] by simp
  show ?case
  proof (cases "ip ! i - 1 = 0xff")
    case False
    then have "be_val ?ip = be_val ip - ?W"
      using upd by (simp add: byte_pred_uint)
    then have "be_val ?ip = (be_val ip - ?W) mod 256 ^ length ip"
      using be_val_mod[of ?ip] by simp
    moreover have "decr_loop (Suc i) ip = Inr ?ip"
      using i False by simp
    ultimately show ?thesis by simp
  next
    case True
    then have "uint (ip ! i - 1) - uint (ip ! i) = 255"
      using byte_pred_uint[of "ip ! i"] by simp
    then have v: "be_val ?ip = be_val ip + 255 * ?W"
      using upd by simp
    from Suc.IH[of ?ip] i obtain r where r: "decr_loop i ?ip = Inr r" "length r = length ip"
      "be_val r = (be_val ?ip - 256 ^ (length ip - i)) mod 256 ^ length ip"
      by auto
    have "be_val ?ip - 256 ^ (length ip - i) = be_val ip - ?W"
      using v pow_split[OF i] by simp
    then have "be_val r = (be_val ip - ?W) mod 256 ^ length ip"
      using r(3) by simp
    moreover have "decr_loop (Suc i) ip = Inr r"
      using i True r(1) by simp
    ultimately show ?thesis using r(2) by simp
  qed
qed

section \<open>NextIP and PrevIP\<close>

lemma IPSize_canonical: "length (IP x) = 4 \<or> length (IP x) = 16 \<Longrightarrow> IPSize (IP x) = length (IP x)"
  by (auto simp: IPSize_def IPVersion_def IP_idem)

lemma pow256: "(256::int) ^ n = 2 ^ (8 * n)"
  by (simp add: power_mult)

lemma NextIP_val:
  assumes "length (IP x) = 4 \<or> length (IP x) = 16"
  shows "\<exists>y. NextIP x = Inr y \<and> length y = length (IP x) \<and>
             be_val y = (be_val (IP x) + 1) mod 2 ^ (8 * length (IP x))"
  using incr_loop_val[of "length (IP x)" "IP x"] IPSize_canonical[OF assms]
  by (simp add: NextIP_def Let_def pow256)

lemma PrevIP_val:
  assumes "length (IP x) = 4 \<or> length (IP x) = 16"
  shows "\<exists>y. PrevIP x = Inr y \<and> length y = length (IP x) \<and>
             be_val y = (be_val (IP x) - 1) mod 2 ^ (8 * length (IP x))"
  using decr_loop_val[of "length (IP x)" "IP x"] IPSize_canonical[OF assms]
  by (simp add: PrevIP_def Let_def pow256)

text \<open>
  Claim C8. NextIP of the all-0xFF address is the all-zero address and PrevIP of the
  all-zero address is the all-0xFF address, for 4 and for 16 bytes. For every address
  whose canonical form has 4 or 16 bytes, NextIP and PrevIP return (no error) an
  address of that length whose big-endian value is the value of the canonical form
  plus 1, respectively minus 1, modulo \<open>2 ^ (8 * length)\<close>.
\<close>

theorem NextIP_PrevIP_modular:
  assumes "length (IP x) = 4 \<or> length (IP x) = 16"
  shows "NextIP [0xff, 0xff, 0xff, 0xff] = Inr [0, 0, 0, 0]
       \<and> PrevIP [0, 0, 0, 0] = Inr [0xff, 0xff, 0xff, 0xff]
       \<and> NextIP (replicate 16 0xff) = Inr (replicate 16 0)
       \<and> PrevIP (replicate 16 0) = Inr (replicate 16 0xff)
       \<and> (\<exists>y. NextIP x = Inr y \<and> length y = length (IP x) \<and>
              be_val y = (be_val (IP x) + 1) mod 2 ^ (8 * length (IP x)))
       \<and> (\<exists>y. PrevIP x = Inr y \<and> length y = length (IP x) \<and>
              be_val y = (be_val (IP x) - 1) mod 2 ^ (8 * length (IP x)))"
proof -
  have "NextIP [0xff, 0xff, 0xff, 0xff] = Inr [0, 0, 0, 0]" by code_simp
  moreover have "PrevIP [0, 0, 0, 0] = Inr [0xff, 0xff, 0xff, 0xff]" by code_simp
  moreover have "NextIP (replicate 16 0xff) = Inr (replicate 16 0)" by code_simp
  moreover have "PrevIP (replicate 16 0) = Inr (replicate 16 0xff)" by code_simp
  ultimately show ?thesis using NextIP_val[OF assms] PrevIP_val[OF assms] by simp
qed

theorem NextIP_PrevIP_modular_witness:
  "(length (IP [192, 0, 2, 255]) = 4 \<or> length (IP [192, 0, 2, 255]) = 16)
   \<and> NextIP [192, 0, 2, 255] = Inr [192, 0, 3, 0]
   \<and> be_val [192, 0, 3, 0] = (be_val (IP [192, 0, 2, 255]) + 1) mod 2 ^ (8 * length (IP [192, 0, 2, 255]))
   \<and> (\<exists>y. PrevIP [192, 0, 2, 255] = Inr y \<and> length y = length (IP [192, 0, 2, 255]) \<and>
          be_val y = (be_val (IP [192, 0, 2, 255]) - 1) mod 2 ^ (8 * length (IP [192, 0, 2, 255])))"
proof -
  have h: "length (IP [192, 0, 2, 255]) = 4 \<or> length (IP [192, 0, 2, 255]) = 16" by code_simp
  have n: "NextIP [192, 0, 2, 255] = Inr [192, 0, 3, 0]" by code_simp
  from NextIP_PrevIP_modular [OF h] h n show ?thesis by auto
qed

lemma be_val_append: "be_val (xs @ ys) = be_val xs * 256 ^ length ys + be_val ys"
  by (induction xs) (simp_all add: algebra_simps power_add)

lemma take2_nth: "2 \<le> length ys \<Longrightarrow> take 2 ys = [ys ! 0, ys ! 1]"
proof -
  assume "2 \<le> length ys"
  then obtain a b zs where "ys = a # b # zs"
    by (cases ys; cases "tl ys") auto
  then show ?thesis by (simp add: numeral_2_eq_2)
qed

lemma prefix_split: "v4InV6Prefix = replicate 10 0 @ [0xff, 0xff]"
  by code_simp

lemma take12_prefix:
  assumes "length x = 16"
  shows "(take 10 x = replicate 10 0 \<and> x ! 10 = 0xff \<and> x ! 11 = 0xff) = (take 12 x = v4InV6Prefix)"
proof -
  have "take 12 x = take 10 x @ take 2 (drop 10 x)"
    using take_add[of 10 2 x] by simp
  moreover have "take 2 (drop 10 x) = [x ! 10, x ! 11]"
    using take2_nth[of "drop 10 x"] assms by simp
  moreover have "length (take 10 x) = length (replicate 10 (0::byte))"
    using assms by simp
  ultimately show ?thesis
    unfolding prefix_split by (metis append_eq_append_conv list.inject)
qed

lemma To4_16: "length x = 16 \<Longrightarrow> To4 x = (if take 12 x = v4InV6Prefix then drop 12 x else [])"
  using take12_prefix[of x] by (simp add: To4_def)

lemma IP_16: "length x = 16 \<Longrightarrow> IP x = (if take 12 x = v4InV6Prefix then drop 12 x else x)"
  by (auto simp: IP_def To4_16 CopyIP_def)

lemma be_val_prefix: "be_val v4InV6Prefix = 0xffff"
  by code_simp

lemma mapped_range:
  assumes "length x = 16"
  shows "(take 12 x = v4InV6Prefix) = (0xffff00000000 \<le> be_val x \<and> be_val x \<le> 0xffffffffffff)"
proof -
  let ?h = "be_val (take 12 x)" and ?t = "be_val (drop 12 x)"
  have v: "be_val x = ?h * 256 ^ 4 + ?t"
    using be_val_append[of "take 12 x" "drop 12 x"] assms by simp
  have t: "0 \<le> ?t" "?t < 256 ^ 4"
    using be_val_nonneg[of "drop 12 x"] be_val_bound[of "drop 12 x"] assms by simp_all
  have "(take 12 x = v4InV6Prefix) = (?h = 0xffff)"
  proof
    assume "take 12 x = v4InV6Prefix" then show "?h = 0xffff" by (simp add: be_val_prefix)
  next
    assume "?h = 0xffff"
    then have "be_val (take 12 x) = be_val v4InV6Prefix" by (simp add: be_val_prefix)
    moreover have "length (take 12 x) = length v4InV6Prefix"
      using assms by (simp add: v4InV6Prefix_def)
    ultimately show "take 12 x = v4InV6Prefix" by (rule be_val_inj[rotated])
  qed
  moreover have "(?h = 0xffff) = (0xffff00000000 \<le> be_val x \<and> be_val x \<le> 0xffffffffffff)"
    using v t by auto
  ultimately show ?thesis by simp
qed

lemma canonical_16: "length x = 16 \<Longrightarrow> (IP x = x) = (take 12 x \<noteq> v4InV6Prefix)"
proof -
  assume l: "length x = 16"
  have "drop 12 x \<noteq> x"
  proof
    assume "drop 12 x = x"
    then have "length (drop 12 x) = length x" by simp
    then show False using l by simp
  qed
  then show ?thesis using l by (simp add: IP_16)
qed

lemma canonical_range:
  "length x = 16 \<Longrightarrow> (IP x = x) = (be_val x < 0xffff00000000 \<or> 0xffffffffffff < be_val x)"
  using mapped_range[of x] by (auto simp: canonical_16)

lemma NextIP_PrevIP_core:
  assumes len: "length x = 4 \<or> length x = 16" and can: "IP x = x"
    and nx: "NextIP x = Inr y" and cany: "IP y = y"
  shows "PrevIP y = Inr x"
proof -
  let ?M = "2 ^ (8 * length x) :: int"
  from NextIP_val[of x] len can nx
  have y: "length y = length x" "be_val y = (be_val x + 1) mod ?M" by auto
  from PrevIP_val[of y] len cany y(1)
  obtain z where z: "PrevIP y = Inr z" "length z = length x" "be_val z = (be_val y - 1) mod ?M"
    by auto
  have "be_val z = (be_val x + 1 - 1) mod ?M"
    unfolding z(3) y(2) by (rule mod_diff_left_eq)
  then have "be_val z = be_val x"
    using be_val_mod[of x] by (simp add: pow256)
  with z(2) have "z = x" by (intro be_val_inj) simp_all
  with z(1) show ?thesis by simp
qed

lemma PrevIP_NextIP_core:
  assumes len: "length x = 4 \<or> length x = 16" and can: "IP x = x"
    and px: "PrevIP x = Inr y" and cany: "IP y = y"
  shows "NextIP y = Inr x"
proof -
  let ?M = "2 ^ (8 * length x) :: int"
  from PrevIP_val[of x] len can px
  have y: "length y = length x" "be_val y = (be_val x - 1) mod ?M" by auto
  from NextIP_val[of y] len cany y(1)
  obtain z where z: "NextIP y = Inr z" "length z = length x" "be_val z = (be_val y + 1) mod ?M"
    by auto
  have "be_val z = (be_val x - 1 + 1) mod ?M"
    unfolding z(3) y(2) by (rule mod_add_left_eq)
  then have "be_val z = be_val x"
    using be_val_mod[of x] by (simp add: pow256)
  with z(2) have "z = x" by (intro be_val_inj) simp_all
  with z(1) show ?thesis by simp
qed

lemma be_val_lastBelow: "be_val lastBelowMapped = 0xfffeffffffff"
  by code_simp

lemma be_val_firstAbove: "be_val firstAboveMapped = 0x1000000000000"
  by code_simp

lemma NextIP_canonical:
  assumes len: "length x = 4 \<or> length x = 16" and can: "IP x = x"
    and nx: "NextIP x = Inr y" and ne: "x \<noteq> lastBelowMapped"
  shows "IP y = y"
proof -
  from NextIP_val[of x] len can nx
  have y: "length y = length x" "be_val y = (be_val x + 1) mod 2 ^ (8 * length x)" by auto
  show ?thesis
  proof (cases "length x = 4")
    case True
    then show ?thesis using y(1) by (simp add: IP_len4)
  next
    case False
    with len have l: "length x = 16" by simp
    have bx: "0 \<le> be_val x" "be_val x < 2 ^ 128"
      using be_val_nonneg[of x] be_val_bound[of x] l by (simp_all add: pow256)
    have cx: "be_val x < 0xffff00000000 \<or> 0xffffffffffff < be_val x"
      using can canonical_range[OF l] by simp
    have "be_val x \<noteq> 0xfffeffffffff"
    proof
      assume "be_val x = 0xfffeffffffff"
      then have "be_val x = be_val lastBelowMapped" by (simp add: be_val_lastBelow)
      moreover have "length x = length lastBelowMapped" using l by (simp add: lastBelowMapped_def)
      ultimately have "x = lastBelowMapped" by (rule be_val_inj[rotated])
      with ne show False by simp
    qed
    moreover have "be_val y = (if be_val x + 1 = 2 ^ 128 then 0 else be_val x + 1)"
      using y(2) l bx by simp
    ultimately have "be_val y < 0xffff00000000 \<or> 0xffffffffffff < be_val y"
      using cx by (auto split: if_splits)
    then show ?thesis using canonical_range[of y] y(1) l by simp
  qed
qed

lemma PrevIP_canonical:
  assumes len: "length x = 4 \<or> length x = 16" and can: "IP x = x"
    and px: "PrevIP x = Inr y" and ne: "x \<noteq> firstAboveMapped"
  shows "IP y = y"
proof -
  from PrevIP_val[of x] len can px
  have y: "length y = length x" "be_val y = (be_val x - 1) mod 2 ^ (8 * length x)" by auto
  show ?thesis
  proof (cases "length x = 4")
    case True
    then show ?thesis using y(1) by (simp add: IP_len4)
  next
    case False
    with len have l: "length x = 16" by simp
    have bx: "0 \<le> be_val x" "be_val x < 2 ^ 128"
      using be_val_nonneg[of x] be_val_bound[of x] l by (simp_all add: pow256)
    have cx: "be_val x < 0xffff00000000 \<or> 0xffffffffffff < be_val x"
      using can canonical_range[OF l] by simp
    have "be_val x \<noteq> 0x1000000000000"
    proof
      assume "be_val x = 0x1000000000000"
      then have "be_val x = be_val firstAboveMapped" by (simp add: be_val_firstAbove)
      moreover have "length x = length firstAboveMapped" using l by (simp add: firstAboveMapped_def)
      ultimately have "x = firstAboveMapped" by (rule be_val_inj[rotated])
      with ne show False by simp
    qed
    moreover have "be_val y = (if be_val x = 0 then 2 ^ 128 - 1 else be_val x - 1)"
    proof (cases "be_val x = 0")
      case True
      then show ?thesis using y(2) l by simp
    next
      case False
      then have "0 \<le> be_val x - 1" "be_val x - 1 < 2 ^ 128" using bx by simp_all
      then show ?thesis using y(2) l False by simp
    qed
    ultimately have "be_val y < 0xffff00000000 \<or> 0xffffffffffff < be_val y"
      using cx by (auto split: if_splits)
    then show ?thesis using canonical_range[of y] y(1) l by simp
  qed
qed

text \<open>
  Claim C7, as amended. For every canonical address \<open>x\<close> of 4 or 16 bytes other than
  \<open>::fffe:ffff:ffff\<close>, PrevIP (NextIP x) returns \<open>x\<close>; for every canonical address
  \<open>x\<close> of 4 or 16 bytes other than \<open>0:0:0:0:1::\<close>, NextIP (PrevIP x) returns \<open>x\<close>;
  the wraparound boundaries are included. At the two excepted addresses the
  intermediate result is an IPv4-mapped address, which the second call reads as the
  4-byte IPv4 address.
\<close>

theorem NextIP_PrevIP_roundtrip:
  assumes "length x = 4 \<or> length x = 16" and "IP x = x"
  shows "(x \<noteq> [0, 0, 0, 0, 0, 0, 0, 0, 0, 0, 0xff, 0xfe, 0xff, 0xff, 0xff, 0xff]
            \<longrightarrow> (case NextIP x of Inl e \<Rightarrow> Inl e | Inr y \<Rightarrow> PrevIP y) = Inr x)
       \<and> (x \<noteq> [0, 0, 0, 0, 0, 0, 0, 0, 0, 1, 0, 0, 0, 0, 0, 0]
            \<longrightarrow> (case PrevIP x of Inl e \<Rightarrow> Inl e | Inr y \<Rightarrow> NextIP y) = Inr x)"
proof (intro conjI impI)
  assume ne: "x \<noteq> [0, 0, 0, 0, 0, 0, 0, 0, 0, 0, 0xff, 0xfe, 0xff, 0xff, 0xff, 0xff]"
  from NextIP_val[of x] assms obtain y where y: "NextIP x = Inr y" by auto
  have "IP y = y"
    using NextIP_canonical[OF assms y] ne by (simp add: lastBelowMapped_def)
  then have "PrevIP y = Inr x" by (rule NextIP_PrevIP_core[OF assms y])
  with y show "(case NextIP x of Inl e \<Rightarrow> Inl e | Inr y \<Rightarrow> PrevIP y) = Inr x" by simp
next
  assume ne: "x \<noteq> [0, 0, 0, 0, 0, 0, 0, 0, 0, 1, 0, 0, 0, 0, 0, 0]"
  from PrevIP_val[of x] assms obtain y where y: "PrevIP x = Inr y" by auto
  have "IP y = y"
    using PrevIP_canonical[OF assms y] ne by (simp add: firstAboveMapped_def)
  then have "NextIP y = Inr x" by (rule PrevIP_NextIP_core[OF assms y])
  with y show "(case PrevIP x of Inl e \<Rightarrow> Inl e | Inr y \<Rightarrow> NextIP y) = Inr x" by simp
qed

theorem NextIP_PrevIP_roundtrip_witness:
  "(length [0xff, 0xff, 0xff, 0xff :: byte] = 4 \<or> length [0xff, 0xff, 0xff, 0xff :: byte] = 16)
   \<and> IP [0xff, 0xff, 0xff, 0xff] = [0xff, 0xff, 0xff, 0xff]
   \<and> (case NextIP [0xff, 0xff, 0xff, 0xff] of Inl e \<Rightarrow> Inl e | Inr y \<Rightarrow> PrevIP y)
       = Inr [0xff, 0xff, 0xff, 0xff]
   \<and> (case PrevIP [0xff, 0xff, 0xff, 0xff] of Inl e \<Rightarrow> Inl e | Inr y \<Rightarrow> NextIP y)
       = Inr [0xff, 0xff, 0xff, 0xff]"
proof -
  have l: "length [0xff, 0xff, 0xff, 0xff :: byte] = 4 \<or> length [0xff, 0xff, 0xff, 0xff :: byte] = 16"
    by simp
  have c: "IP [0xff, 0xff, 0xff, 0xff] = [0xff, 0xff, 0xff, 0xff]"
    by code_simp
  from NextIP_PrevIP_roundtrip [OF l c] l c show ?thesis by simp
qed

text \<open>
  Claim C7 as stated fails at the canonical 16-byte address \<open>::fffe:ffff:ffff\<close>:
  its successor is the IPv4-mapped \<open>::ffff:0.0.0.0\<close>, whose predecessor is computed
  as that of the IPv4 address 0.0.0.0, the 4-byte 255.255.255.255. It fails in the other
  direction at \<open>0:0:0:0:1::\<close>.
\<close>

theorem NextIP_PrevIP_roundtrip_counterexample:
  "IP [0, 0, 0, 0, 0, 0, 0, 0, 0, 0, 0xff, 0xfe, 0xff, 0xff, 0xff, 0xff]
     = [0, 0, 0, 0, 0, 0, 0, 0, 0, 0, 0xff, 0xfe, 0xff, 0xff, 0xff, 0xff]
   \<and> NextIP [0, 0, 0, 0, 0, 0, 0, 0, 0, 0, 0xff, 0xfe, 0xff, 0xff, 0xff, 0xff]
     = Inr [0, 0, 0, 0, 0, 0, 0, 0, 0, 0, 0xff, 0xff, 0, 0, 0, 0]
   \<and> PrevIP [0, 0, 0, 0, 0, 0, 0, 0, 0, 0, 0xff, 0xff, 0, 0, 0, 0] = Inr [0xff, 0xff, 0xff, 0xff]
   \<and> IP [0, 0, 0, 0, 0, 0, 0, 0, 0, 1, 0, 0, 0, 0, 0, 0]
     = [0, 0, 0, 0, 0, 0, 0, 0, 0, 1, 0, 0, 0, 0, 0, 0]
   \<and> PrevIP [0, 0, 0, 0, 0, 0, 0, 0, 0, 1, 0, 0, 0, 0, 0, 0]
     = Inr [0, 0, 0, 0, 0, 0, 0, 0, 0, 0, 0xff, 0xff, 0xff, 0xff, 0xff, 0xff]
   \<and> NextIP [0, 0, 0, 0, 0, 0, 0, 0, 0, 0, 0xff, 0xff, 0xff, 0xff, 0xff, 0xff] = Inr [0, 0, 0, 0]"
  by code_simp

section \<open>Add and Substract\<close>

lemma pow_top: "i < L \<Longrightarrow> i = 0 \<Longrightarrow> (256::int) * 256 ^ (L - Suc i) = 256 ^ L"
  by (cases L) simp_all

lemma add_step:
  assumes i: "i < length a"
  shows "\<exists>a2. (if (a[i := a ! i + v]) ! i < a ! i \<and> 0 < i
               then incr_loop i (a[i := a ! i + v]) else Inr (a[i := a ! i + v])) = Inr a2
            \<and> length a2 = length a
            \<and> be_val a2 = (be_val a + uint v * 256 ^ (length a - Suc i)) mod 256 ^ length a"
proof -
  let ?a = "a[i := a ! i + v]"
  let ?W = "256 ^ (length a - Suc i) :: int"
  let ?M = "256 ^ length a :: int"
  have nth: "?a ! i = a ! i + v" using i by simp
  have upd: "be_val ?a = be_val a + (uint v - (if a ! i + v < a ! i then 256 else 0)) * ?W"
    using be_val_update[OF i, of "a ! i + v"] byte_add_uint[of "a ! i" v] by simp
  have len: "length ?a = length a" by simp
  show ?thesis
  proof (cases "a ! i + v < a ! i")
    case False
    then have "be_val ?a = be_val a + uint v * ?W" using upd by simp
    then have "be_val ?a = (be_val a + uint v * ?W) mod ?M"
      using be_val_mod[of ?a] by simp
    then show ?thesis using False nth by simp
  next
    case True
    then have v: "be_val ?a = be_val a + uint v * ?W - 256 * ?W"
      using upd by (simp add: algebra_simps)
    show ?thesis
    proof (cases "0 < i")
      case False
      then have "256 * ?W = ?M" using pow_top[OF i] by simp
      then have "be_val a + uint v * ?W = be_val ?a + ?M" using v by simp
      then have "(be_val a + uint v * ?W) mod ?M = be_val ?a"
        using be_val_mod[of ?a] by simp
      then show ?thesis using False nth by simp
    next
      case pos: True
      from incr_loop_val[of i ?a] i obtain r where r: "incr_loop i ?a = Inr r" "length r = length a"
        "be_val r = (be_val ?a + 256 ^ (length a - i)) mod ?M"
        by auto
      have "be_val ?a + 256 ^ (length a - i) = be_val a + uint v * ?W"
        using v pow_split[OF i] by simp
      then have "be_val r = (be_val a + uint v * ?W) mod ?M" using r(3) by simp
      then show ?thesis using True pos nth r(1,2) by simp
    qed
  qed
qed

lemma sub_step:
  assumes i: "i < length a"
  shows "\<exists>a2. (if a ! i < (a[i := a ! i - v]) ! i \<and> 0 < i
               then decr_loop i (a[i := a ! i - v]) else Inr (a[i := a ! i - v])) = Inr a2
            \<and> length a2 = length a
            \<and> be_val a2 = (be_val a - uint v * 256 ^ (length a - Suc i)) mod 256 ^ length a"
proof -
  let ?a = "a[i := a ! i - v]"
  let ?W = "256 ^ (length a - Suc i) :: int"
  let ?M = "256 ^ length a :: int"
  have nth: "?a ! i = a ! i - v" using i by simp
  have upd: "be_val ?a = be_val a + (- uint v + (if a ! i < a ! i - v then 256 else 0)) * ?W"
    using be_val_update[OF i, of "a ! i - v"] byte_sub_uint[of "a ! i" v] by simp
  have len: "length ?a = length a" by simp
  show ?thesis
  proof (cases "a ! i < a ! i - v")
    case False
    then have "be_val ?a = be_val a - uint v * ?W" using upd by simp
    then have "be_val ?a = (be_val a - uint v * ?W) mod ?M"
      using be_val_mod[of ?a] by simp
    then show ?thesis using False nth by simp
  next
    case True
    then have v: "be_val ?a = be_val a - uint v * ?W + 256 * ?W"
      using upd by (simp add: algebra_simps)
    show ?thesis
    proof (cases "0 < i")
      case False
      then have "256 * ?W = ?M" using pow_top[OF i] by simp
      then have "be_val a - uint v * ?W = be_val ?a - ?M" using v by simp
      then have "(be_val a - uint v * ?W) mod ?M = be_val ?a"
        using be_val_mod[of ?a] by simp
      then show ?thesis using False nth by simp
    next
      case pos: True
      from decr_loop_val[of i ?a] i obtain r where r: "decr_loop i ?a = Inr r" "length r = length a"
        "be_val r = (be_val ?a - 256 ^ (length a - i)) mod ?M"
        by auto
      have "be_val ?a - 256 ^ (length a - i) = be_val a - uint v * ?W"
        using v pow_split[OF i] by simp
      then have "be_val r = (be_val a - uint v * ?W) mod ?M" using r(3) by simp
      then show ?thesis using True pos nth r(1,2) by simp
    qed
  qed
qed

lemma add_loop_val:
  "i \<le> length a \<Longrightarrow> length b = length a \<Longrightarrow> length msk = length a \<Longrightarrow>
   \<exists>r. add_loop i a b msk = Inr r \<and> length r = length a \<and>
       be_val r = (be_val a + (\<Sum>p<i. uint (b ! p AND msk ! p) * 256 ^ (length a - Suc p)))
                  mod 256 ^ length a"
proof (induction i arbitrary: a)
  case 0
  then show ?case using be_val_mod[of a] by simp
next
  case (Suc i)
  then have i: "i < length a" by simp
  let ?v = "b ! i AND msk ! i"
  let ?M = "256 ^ length a :: int"
  from add_step[OF i, of ?v] obtain a2 where a2:
    "(if (a[i := a ! i + ?v]) ! i < a ! i \<and> 0 < i
      then incr_loop i (a[i := a ! i + ?v]) else Inr (a[i := a ! i + ?v])) = Inr a2"
    "length a2 = length a"
    "be_val a2 = (be_val a + uint ?v * 256 ^ (length a - Suc i)) mod ?M"
    by blast
  have step: "add_loop (Suc i) a b msk = add_loop i a2 b msk"
    using i Suc.prems a2(1) by (auto simp: Let_def split: if_splits)
  from Suc.IH[of a2] Suc.prems a2(2) i obtain r where r: "add_loop i a2 b msk = Inr r"
    "length r = length a"
    "be_val r = (be_val a2 + (\<Sum>p<i. uint (b ! p AND msk ! p) * 256 ^ (length a - Suc p))) mod ?M"
    by auto
  have "be_val r = (be_val a + uint ?v * 256 ^ (length a - Suc i)
                    + (\<Sum>p<i. uint (b ! p AND msk ! p) * 256 ^ (length a - Suc p))) mod ?M"
    unfolding r(3) a2(3) by (rule mod_add_left_eq)
  then have "be_val r = (be_val a + (\<Sum>p<Suc i. uint (b ! p AND msk ! p) * 256 ^ (length a - Suc p))) mod ?M"
    by (simp add: algebra_simps)
  with step r(1,2) show ?case by simp
qed

lemma sub_loop_val:
  "i \<le> length a \<Longrightarrow> length b = length a \<Longrightarrow> length msk = length a \<Longrightarrow>
   \<exists>r. sub_loop i a b msk = Inr r \<and> length r = length a \<and>
       be_val r = (be_val a - (\<Sum>p<i. uint (b ! p AND msk ! p) * 256 ^ (length a - Suc p)))
                  mod 256 ^ length a"
proof (induction i arbitrary: a)
  case 0
  then show ?case using be_val_mod[of a] by simp
next
  case (Suc i)
  then have i: "i < length a" by simp
  let ?v = "b ! i AND msk ! i"
  let ?M = "256 ^ length a :: int"
  from sub_step[OF i, of ?v] obtain a2 where a2:
    "(if a ! i < (a[i := a ! i - ?v]) ! i \<and> 0 < i
      then decr_loop i (a[i := a ! i - ?v]) else Inr (a[i := a ! i - ?v])) = Inr a2"
    "length a2 = length a"
    "be_val a2 = (be_val a - uint ?v * 256 ^ (length a - Suc i)) mod ?M"
    by blast
  have step: "sub_loop (Suc i) a b msk = sub_loop i a2 b msk"
    using i Suc.prems a2(1) by (auto simp: Let_def split: if_splits)
  from Suc.IH[of a2] Suc.prems a2(2) i obtain r where r: "sub_loop i a2 b msk = Inr r"
    "length r = length a"
    "be_val r = (be_val a2 - (\<Sum>p<i. uint (b ! p AND msk ! p) * 256 ^ (length a - Suc p))) mod ?M"
    by auto
  have "be_val r = (be_val a - uint ?v * 256 ^ (length a - Suc i)
                    - (\<Sum>p<i. uint (b ! p AND msk ! p) * 256 ^ (length a - Suc p))) mod ?M"
    unfolding r(3) a2(3) by (rule mod_diff_left_eq)
  then have "be_val r = (be_val a - (\<Sum>p<Suc i. uint (b ! p AND msk ! p) * 256 ^ (length a - Suc p))) mod ?M"
    by (simp add: algebra_simps)
  with step r(1,2) show ?case by simp
qed

lemma be_val_sum: "be_val xs = (\<Sum>p<length xs. uint (xs ! p) * 256 ^ (length xs - Suc p))"
proof (induction xs)
  case Nil
  then show ?case by simp
next
  case (Cons x xs)
  have "(\<Sum>p<Suc (length xs). uint ((x # xs) ! p) * 256 ^ (Suc (length xs) - Suc p))
        = uint ((x # xs) ! 0) * 256 ^ (Suc (length xs) - Suc 0)
          + (\<Sum>p<length xs. uint ((x # xs) ! Suc p) * 256 ^ (Suc (length xs) - Suc (Suc p)))"
    by (rule sum.lessThan_Suc_shift)
  also have "\<dots> = uint x * 256 ^ length xs + be_val xs"
    using Cons by simp
  finally show ?case by simp
qed

lemma be_val_masked:
  assumes "length b = length a" "length msk = length a"
  shows "(\<Sum>p<length a. uint (b ! p AND msk ! p) * 256 ^ (length a - Suc p))
         = be_val (map2 (\<lambda>x y. x AND y) b msk)"
proof -
  have "be_val (map2 (\<lambda>x y. x AND y) b msk)
        = (\<Sum>p<length a. uint (map2 (\<lambda>x y. x AND y) b msk ! p) * 256 ^ (length a - Suc p))"
    using be_val_sum[of "map2 (\<lambda>x y. x AND y) b msk"] assms by simp
  also have "\<dots> = (\<Sum>p<length a. uint (b ! p AND msk ! p) * 256 ^ (length a - Suc p))"
    using assms by (intro sum.cong) simp_all
  finally show ?thesis by simp
qed

lemma IP_changes: "IP s \<noteq> s \<Longrightarrow> length s = 16 \<and> length (IP s) = 4"
proof -
  assume n: "IP s \<noteq> s"
  have "To4 s \<noteq> [] \<and> To4 s \<noteq> s" using n by (auto simp: IP_def CopyIP_def Let_def split: if_splits)
  then have "length s = 16 \<and> To4 s = drop 12 s" by (auto simp: To4_def split: if_splits)
  moreover have "IP s = To4 s" using \<open>To4 s \<noteq> [] \<and> To4 s \<noteq> s\<close> by (simp add: IP_def CopyIP_def)
  ultimately show ?thesis by simp
qed

lemma sub_loop_short: "length a \<le> i \<Longrightarrow> sub_loop (Suc i) a b msk = Inl IndexOutOfRange"
  by simp

lemma Add_val:
  assumes "length a = length msk" and "length b = length msk"
  shows "\<exists>s. add_loop (length msk) a b msk = Inr s \<and> length s = length a
            \<and> be_val s = (be_val a + be_val (map2 (\<lambda>x y. x AND y) b msk)) mod 2 ^ (8 * length a)"
proof -
  have lb: "length b = length a" and lm: "length msk = length a"
    using assms by simp_all
  from add_loop_val[OF le_refl lb lm]
  obtain r where r: "add_loop (length a) a b msk = Inr r" "length r = length a"
    "be_val r = (be_val a + (\<Sum>p<length a. uint (b ! p AND msk ! p) * 256 ^ (length a - Suc p)))
                mod 256 ^ length a"
    by blast
  have "be_val r = (be_val a + be_val (map2 (\<lambda>x y. x AND y) b msk)) mod 256 ^ length a"
    using r(3) be_val_masked[OF lb lm] by simp
  then have "be_val r = (be_val a + be_val (map2 (\<lambda>x y. x AND y) b msk)) mod 2 ^ (8 * length a)"
    by (simp only: pow256)
  with r(1,2) lm show ?thesis by simp
qed

lemma Sub_val:
  assumes "length a = length msk" and "length b = length msk"
  shows "\<exists>s. sub_loop (length msk) a b msk = Inr s \<and> length s = length a
            \<and> be_val s = (be_val a - be_val (map2 (\<lambda>x y. x AND y) b msk)) mod 2 ^ (8 * length a)"
proof -
  have lb: "length b = length a" and lm: "length msk = length a"
    using assms by simp_all
  from sub_loop_val[OF le_refl lb lm]
  obtain r where r: "sub_loop (length a) a b msk = Inr r" "length r = length a"
    "be_val r = (be_val a - (\<Sum>p<length a. uint (b ! p AND msk ! p) * 256 ^ (length a - Suc p)))
                mod 256 ^ length a"
    by blast
  have "be_val r = (be_val a - be_val (map2 (\<lambda>x y. x AND y) b msk)) mod 256 ^ length a"
    using r(3) be_val_masked[OF lb lm] by simp
  then have "be_val r = (be_val a - be_val (map2 (\<lambda>x y. x AND y) b msk)) mod 2 ^ (8 * length a)"
    by (simp only: pow256)
  with r(1,2) lm show ?thesis by simp
qed

text \<open>
  Claim C3, as amended. For canonical addresses \<open>a\<close> and \<open>b\<close> and a mask of the same
  byte length, Add returns (no error) the address \<open>s\<close> of that length whose value is
  \<open>a + (b AND mask)\<close> modulo \<open>2 ^ (8 * length)\<close>, and Substract s b mask returns
  \<open>a\<close> bit for bit whenever \<open>s\<close> is again canonical: always for 4 bytes, and for 16
  bytes unless \<open>s\<close> is an IPv4-mapped address. In that case Substract reads \<open>s\<close> as
  a 4-byte address and the 16-byte mask indexes past its end.
\<close>

theorem Substract_Add:
  assumes "IP a = a" and "IP b = b" and "length a = length msk" and "length b = length msk"
  shows "\<exists>s. Add a b msk = Inr s \<and> length s = length a
            \<and> be_val s = (be_val a + be_val (map2 (\<lambda>x y. x AND y) b msk)) mod 2 ^ (8 * length a)
            \<and> Substract s b msk = (if IP s = s then Inr a else Inl IndexOutOfRange)
            \<and> (length msk = 4 \<longrightarrow> Substract s b msk = Inr a)"
proof -
  let ?S = "be_val (map2 (\<lambda>x y. x AND y) b msk)"
  let ?M = "2 ^ (8 * length a) :: int"
  from Add_val[OF assms(3,4)] obtain s where s: "add_loop (length msk) a b msk = Inr s"
    "length s = length a" "be_val s = (be_val a + ?S) mod ?M"
    by blast
  have add: "Add a b msk = Inr s" using s(1) assms(1,2) by (simp add: Add_def)
  have can: "Substract s b msk = Inr a" if c: "IP s = s"
  proof -
    from Sub_val[of s msk b] s(2) assms(3,4) obtain r where r: "sub_loop (length msk) s b msk = Inr r"
      "length r = length a" "be_val r = (be_val s - ?S) mod ?M"
      by auto
    have "be_val r = (be_val a + ?S - ?S) mod ?M"
      unfolding r(3) s(3) by (rule mod_diff_left_eq)
    then have "be_val r = be_val a" using be_val_mod[of a] by (simp add: pow256)
    with r(2) have "r = a" by (intro be_val_inj) simp_all
    with r(1) c assms(2) show ?thesis by (simp add: Substract_def)
  qed
  have ncan: "Substract s b msk = Inl IndexOutOfRange" if c: "IP s \<noteq> s"
  proof -
    from IP_changes[OF c] have l: "length s = 16" "length (IP s) = 4" by simp_all
    have "length (IP s) \<le> 15" using l(2) by simp
    then have "sub_loop (Suc 15) (IP s) (IP b) msk = Inl IndexOutOfRange"
      by (rule sub_loop_short)
    moreover have "length msk = 16" using l(1) s(2) assms(3) by simp
    ultimately show ?thesis by (simp add: Substract_def)
  qed
  have "length msk = 4 \<Longrightarrow> IP s = s" using s(2) assms(3) by (simp add: IP_len4)
  with add s(2,3) can ncan show ?thesis by auto
qed

theorem Substract_Add_witness:
  "IP [255, 255, 255, 255] = [255, 255, 255, 255] \<and> IP [1, 1, 1, 1] = [1, 1, 1, 1]
   \<and> length [255, 255, 255, 255 :: byte] = length [255, 255, 255, 0 :: byte]
   \<and> length [1, 1, 1, 1 :: byte] = length [255, 255, 255, 0 :: byte]
   \<and> Add [255, 255, 255, 255] [1, 1, 1, 1] [255, 255, 255, 0] = Inr [1, 1, 0, 255]
   \<and> Substract [1, 1, 0, 255] [1, 1, 1, 1] [255, 255, 255, 0] = Inr [255, 255, 255, 255]"
proof -
  have a: "IP [255, 255, 255, 255] = [255, 255, 255, 255]" by code_simp
  have b: "IP [1, 1, 1, 1] = [1, 1, 1, 1]" by code_simp
  have la: "length [255, 255, 255, 255 :: byte] = length [255, 255, 255, 0 :: byte]" by simp
  have lb: "length [1, 1, 1, 1 :: byte] = length [255, 255, 255, 0 :: byte]" by simp
  have s: "Add [255, 255, 255, 255] [1, 1, 1, 1] [255, 255, 255, 0] = Inr [1, 1, 0, 255]" by code_simp
  have c: "IP [1, 1, 0, 255] = [1, 1, 0, 255]" by code_simp
  from Substract_Add [OF a b la lb] s c
  have "Substract [1, 1, 0, 255] [1, 1, 1, 1] [255, 255, 255, 0] = Inr [255, 255, 255, 255]"
    by auto
  with a b s show ?thesis by simp
qed

text \<open>
  Claim C3 as stated fails for 16 bytes: the sum of the canonical addresses
  \<open>::fffe:0:0\<close> and \<open>::1:0:0\<close> under the all-ones mask is the IPv4-mapped
  \<open>::ffff:0.0.0.0\<close>, and subtracting again under the same mask panics.
\<close>

theorem Substract_Add_counterexample:
  "IP [0, 0, 0, 0, 0, 0, 0, 0, 0, 0, 0xff, 0xfe, 0, 0, 0, 0]
     = [0, 0, 0, 0, 0, 0, 0, 0, 0, 0, 0xff, 0xfe, 0, 0, 0, 0]
   \<and> IP [0, 0, 0, 0, 0, 0, 0, 0, 0, 0, 0, 1, 0, 0, 0, 0]
     = [0, 0, 0, 0, 0, 0, 0, 0, 0, 0, 0, 1, 0, 0, 0, 0]
   \<and> Add [0, 0, 0, 0, 0, 0, 0, 0, 0, 0, 0xff, 0xfe, 0, 0, 0, 0]
          [0, 0, 0, 0, 0, 0, 0, 0, 0, 0, 0, 1, 0, 0, 0, 0] (replicate 16 0xff)
     = Inr [0, 0, 0, 0, 0, 0, 0, 0, 0, 0, 0xff, 0xff, 0, 0, 0, 0]
   \<and> Substract [0, 0, 0, 0, 0, 0, 0, 0, 0, 0, 0xff, 0xff, 0, 0, 0, 0]
          [0, 0, 0, 0, 0, 0, 0, 0, 0, 0, 0, 1, 0, 0, 0, 0] (replicate 16 0xff)
     = Inl IndexOutOfRange"
  by code_simp

section \<open>ParseIPMask\<close>

lemma Split_nonempty: "Split c s \<noteq> []"
  by (induction s) (auto split: list.splits)

lemma length_Split: "length (Split c s) = Suc (count_list s c)"
  by (induction s) (auto split: list.splits simp: Split_nonempty)

lemma Split_first: "Split c s ! 0 = takeWhile (\<lambda>x. x \<noteq> c) s"
  by (induction s) (auto split: list.splits simp: Split_nonempty)





lemma Complement_map: "Complement m = map (\<lambda>b. NOT b) m"
  by (simp add: Complement_def)

text \<open>
  Claim C5, as amended. An input with two or more \<open>/\<close> separators always fails. When
  the text before the first \<open>/\<close> is not an address, the error is the address error
  carrying that text; otherwise the error has the kind \<open>IP/Mask\<close> and its text is the
  whole input, not the suffix after the first \<open>/\<close>. This holds for any address parser.
\<close>

theorem ParseIPMask_overspecified:
  assumes "2 \<le> count_list addr CHR ''/''"
  shows "ParseIPMask parseIP addr =
           (if parseIP (takeWhile (\<lambda>c. c \<noteq> CHR ''/'') addr) = []
            then Inl (ParseError ''IP address'' (takeWhile (\<lambda>c. c \<noteq> CHR ''/'') addr))
            else Inl (ParseError ''IP/Mask'' addr))"
  using assms by (simp add: ParseIPMask_def Let_def length_Split Split_first)

theorem ParseIPMask_overspecified_witness:
  "2 \<le> count_list ''192.0.2.0/24/1'' CHR ''/''
   \<and> parseIPv4 (takeWhile (\<lambda>c. c \<noteq> CHR ''/'') ''192.0.2.0/24/1'') \<noteq> []
   \<and> ParseIPMask parseIPv4 ''192.0.2.0/24/1'' = Inl (ParseError ''IP/Mask'' ''192.0.2.0/24/1'')"
proof -
  have c: "2 \<le> count_list ''192.0.2.0/24/1'' CHR ''/''" by code_simp
  have p: "parseIPv4 (takeWhile (\<lambda>c. c \<noteq> CHR ''/'') ''192.0.2.0/24/1'') \<noteq> []" by code_simp
  from ParseIPMask_overspecified [OF c, of parseIPv4] c p show ?thesis by simp
qed

text \<open>
  Claim C5 as stated fails on the over-specified input of the repository's own test:
  the text of the error is the whole input \<open>192.0.2.0/24/1\<close>, not \<open>24/1\<close>; and with
  an invalid address in front the error is the address error.
\<close>

theorem ParseIPMask_overspecified_counterexample:
  "ParseIPMask parseIPv4 ''192.0.2.0/24/1'' = Inl (ParseError ''IP/Mask'' ''192.0.2.0/24/1'')
   \<and> ''192.0.2.0/24/1'' \<noteq> ''24/1''
   \<and> ParseIPMask parseIPv4 ''invalid/24/1'' = Inl (ParseError ''IP address'' ''invalid'')"
  by code_simp



section \<open>Package wildcard: evaluations outside the well-formed Wildcards\<close>

lemma FindWildcard_three_fails:
  "(case FindWildcard [192, 0, 2, 134] [192, 0, 6, 6] [[192, 0, 254, 70]] of
      Inl e \<Rightarrow> False
    | Inr w \<Rightarrow> Wildcard_IP w = [192, 0, 2, 6] \<and> Wildcard_Wildcard w = [0, 0, 252, 64]
               \<and> Matches w [192, 0, 2, 134] = Inr False)
   \<and> FindWildcard [0, 1, 0, 0, 0, 0, 0, 0, 0, 0, 0xff, 0xff, 1, 2, 3, 4]
                    [0, 2, 0, 0, 0, 0, 0, 0, 0, 0, 0xff, 0xff, 1, 2, 3, 4] []
       = Inl IndexOutOfRange"
  by code_simp

lemma Next_stuck_fails:
  "(case New [0, 0, 0, 0, 0, 0, 0, 0, 0, 0, 0xff, 0xfe, 0, 0, 0, 0]
             [0, 0, 0, 0, 0, 0, 0, 0, 0, 0, 0, 1, 0, 0, 0, 0] of
      Inl e \<Rightarrow> False
    | Inr w \<Rightarrow>
        dont_care_bits w = 1
        \<and> Wildcard_IP (First w) = [0, 0, 0, 0, 0, 0, 0, 0, 0, 0, 0xff, 0xfe, 0, 0, 0, 0]
        \<and> (case Next_times 1 (First w) of
              Inl e \<Rightarrow> False
            | Inr w' \<Rightarrow> Wildcard_IP w' = [0, 0, 0, 0, 0, 0, 0, 0, 0, 0, 0xff, 0xff, 0, 0, 0, 0])
        \<and> (case Next_times 2 (First w) of
              Inl e \<Rightarrow> False
            | Inr w' \<Rightarrow> Wildcard_IP w' = [0, 0, 0, 0, 0, 0, 0, 0, 0, 0, 0xff, 0xff, 0, 0, 0, 0]))"
  by code_simp

lemma Matches_fails:
  "(case New [0x20, 0x01, 0x0d, 0xb8, 0, 0, 0, 0, 0, 0, 0, 0, 0, 0, 0, 1]
             [0xff, 0xff, 0xff, 0xff, 0xff, 0xff, 0xff, 0xff, 0xff, 0xff, 0, 0, 0, 0, 0, 0] of
      Inl e \<Rightarrow> False
    | Inr w \<Rightarrow>
        map2 (\<lambda>x y. x AND y) [0, 0, 0, 0, 0, 0, 0, 0, 0, 0, 0, 0, 0, 0, 0, 1]
          (Complement [0xff, 0xff, 0xff, 0xff, 0xff, 0xff, 0xff, 0xff, 0xff, 0xff, 0, 0, 0, 0, 0, 0])
        = map2 (\<lambda>x y. x AND y) [0x20, 0x01, 0x0d, 0xb8, 0, 0, 0, 0, 0, 0, 0, 0, 0, 0, 0, 1]
          (Complement [0xff, 0xff, 0xff, 0xff, 0xff, 0xff, 0xff, 0xff, 0xff, 0xff, 0, 0, 0, 0, 0, 0])
        \<and> Matches w [0, 0, 0, 0, 0, 0, 0, 0, 0, 0, 0, 0, 0, 0, 0, 1] = Inr False)
   \<and> (case New [0, 1, 0, 0, 0, 0, 0, 0, 0, 0, 0xff, 0xff, 1, 2, 3, 4]
               [0, 1, 0, 0, 0, 0, 0, 0, 0, 0, 0, 0, 0, 0, 0, 0] of
        Inl e \<Rightarrow> False
      | Inr w \<Rightarrow>
          Wildcard_IP (First w) = [1, 2, 3, 4]
          \<and> Matches w (Wildcard_IP (First w)) = Inl IndexOutOfRange
          \<and> Last w = Inl IndexOutOfRange)"
  by code_simp

lemma Matches_cursor_fails:
  "(case New [0, 0, 0, 0, 0, 0, 0, 0, 0, 0, 0xff, 0xfe, 0xff, 0xff, 0xff, 0xff] (replicate 16 0xff) of
      Inl e \<Rightarrow> False
    | Inr w \<Rightarrow>
        (case Next w of
           Inl e \<Rightarrow> False
         | Inr (a, w') \<Rightarrow> a = [0, 0, 0, 0, 0, 0, 0, 0, 0, 0, 0xff, 0xff, 0, 0, 0, 0]
                          \<and> Matches w' (Wildcard_IP w') = Inl IndexOutOfRange))
   \<and> (case New [0, 0, 0, 0, 0, 0, 0, 0, 0, 1, 0, 0, 0, 0, 0, 0] (replicate 16 0xff) of
        Inl e \<Rightarrow> False
      | Inr w \<Rightarrow>
          (case Prev w of
             Inl e \<Rightarrow> False
           | Inr (a, w') \<Rightarrow> a = [0, 0, 0, 0, 0, 0, 0, 0, 0, 0, 0xff, 0xff, 0xff, 0xff, 0xff, 0xff]
                            \<and> Matches w' (Wildcard_IP w') = Inl IndexOutOfRange))"
  by code_simp

section \<open>Stepping on bit lists\<close>

lemma free_count_simps [simp]: "free_count [] = 0" "free_count (m # ms) = (if m then free_count ms else Suc (free_count ms))"
  by (simp_all add: free_count_def)

lemma length_bit_step [simp]: "length (snd (bit_step ms bs)) = length bs"
  by (induction ms bs rule: bit_step.induct) auto

lemma care_bits_bit_step: "care_bits ms (snd (bit_step ms bs)) = care_bits ms bs"
  by (induction ms bs rule: bit_step.induct) auto

lemma free_value_bound: "free_value ms bs < 2 ^ free_count ms"
  by (induction ms bs rule: free_value.induct) auto

lemma two_mod: "(2 * x + 2) mod (2 * n) = 2 * ((x + 1) mod n)" for x n :: nat
proof -
  have "2 * x + 2 = 2 * (x + 1)" by simp
  then show ?thesis by (simp only: mult_mod_right)
qed

lemma free_value_bit_step:
  "length ms = length bs \<Longrightarrow>
   free_value ms (snd (bit_step ms bs)) = (free_value ms bs + 1) mod 2 ^ free_count ms
   \<and> fst (bit_step ms bs) = (free_value ms bs + 1 < 2 ^ free_count ms)"
proof (induction ms arbitrary: bs)
  case Nil
  then show ?case by simp
next
  case (Cons m ms)
  then obtain b r where e: "bs = b # r" "length ms = length r"
    by (metis length_Suc_conv)
  from Cons.IH[OF e(2)]
  have IH: "free_value ms (snd (bit_step ms r)) = (free_value ms r + 1) mod 2 ^ free_count ms"
    "fst (bit_step ms r) = (free_value ms r + 1 < 2 ^ free_count ms)" by auto
  have bd: "free_value ms r < 2 ^ free_count ms" by (rule free_value_bound)
  show ?case
  proof (cases m)
    case True
    then show ?thesis using IH e by simp
  next
    case False
    show ?thesis
    proof (cases b)
      case nb: False
      have "2 * free_value ms r + 1 < 2 * 2 ^ free_count ms" using bd by simp
      then show ?thesis using False nb e by simp
    next
      case b: True
      have "(2 * free_value ms r + 2) mod (2 * 2 ^ free_count ms) = 2 * ((free_value ms r + 1) mod 2 ^ free_count ms)"
        by (rule two_mod)
      moreover have "(2 * free_value ms r + 2 < 2 * 2 ^ free_count ms) = (free_value ms r + 1 < 2 ^ free_count ms)"
        by auto
      ultimately show ?thesis using False b IH e by simp
    qed
  qed
qed

lemma care_bits_free_value_inj:
  "length bs1 = length ms \<Longrightarrow> length bs2 = length ms \<Longrightarrow>
   care_bits ms bs1 = care_bits ms bs2 \<Longrightarrow> free_value ms bs1 = free_value ms bs2 \<Longrightarrow> bs1 = bs2"
proof (induction ms arbitrary: bs1 bs2)
  case Nil
  then show ?case by simp
next
  case (Cons m ms)
  then obtain b1 r1 b2 r2 where e: "bs1 = b1 # r1" "bs2 = b2 # r2"
    by (metis length_Suc_conv)
  show ?case
  proof (cases m)
    case True
    with Cons e show ?thesis by auto
  next
    case False
    with Cons.prems e have "(if b1 then 1 else 0) + 2 * free_value ms r1 = (if b2 then 1 else (0::nat)) + 2 * free_value ms r2"
      by simp
    then have "b1 = b2 \<and> free_value ms r1 = free_value ms r2" by (auto split: if_splits) presburger+
    with Cons e False show ?thesis by auto
  qed
qed

section \<open>From bytes to bits\<close>

lemma length_byte_bits [simp]: "length (byte_bits b) = 8"
  by (simp add: byte_bits_def)

lemma byte_bits_nth: "j < 8 \<Longrightarrow> byte_bits b ! j = bit b j"
  by (simp add: byte_bits_def)

lemma bit_of_bit: "bit_of b j = bit b j"
  by (simp add: bit_of_def bit_iff_odd_drop_bit and_one_eq mod_2_eq_odd)

lemma byte_bits_set: "j < 8 \<Longrightarrow> byte_bits (b OR push_bit j 1) = (byte_bits b)[j := True]"
  by (rule nth_equalityI) (auto simp: byte_bits_nth nth_list_update bit_simps)

lemma byte_bits_clear: "j < 8 \<Longrightarrow> byte_bits (b AND NOT (push_bit j 1)) = (byte_bits b)[j := False]"
  by (rule nth_equalityI) (auto simp: byte_bits_nth nth_list_update bit_simps)

lemma byte_bits_inj: "byte_bits a = byte_bits b \<Longrightarrow> a = b"
proof (rule bit_word_eqI)
  fix n assume "byte_bits a = byte_bits b" "n < LENGTH(8)"
  then show "bit a n = bit b n"
    using byte_bits_nth[of n a] byte_bits_nth[of n b] by simp
qed

lemma byte_bits_and: "byte_bits (a AND b) = map2 (\<and>) (byte_bits a) (byte_bits b)"
  by (rule nth_equalityI) (auto simp: byte_bits_nth bit_simps)

lemma next_bits_step:
  assumes "i < length msk" and "i < length ip" and "j \<le> 8"
  shows "\<exists>b'. next_bits i j msk ip
               = Inr (fst (bit_step (drop j (byte_bits (msk ! i))) (drop j (byte_bits (ip ! i)))),
                      ip[i := b'])
            \<and> byte_bits b' = take j (byte_bits (ip ! i))
                 @ snd (bit_step (drop j (byte_bits (msk ! i))) (drop j (byte_bits (ip ! i))))"
  using assms
proof (induction "8 - j" arbitrary: j ip)
  case 0
  then have j: "j = 8" by simp
  have "next_bits i j msk ip = Inr (False, ip)"
    using j by (subst next_bits.simps) simp
  then show ?case using j by (intro exI[of _ "ip ! i"]) simp
next
  case (Suc k)
  then have j: "j < 8" by simp
  have k: "k = 8 - Suc j" using Suc.hyps(2) by linarith
  have sj: "Suc j \<le> 8" using j by simp
  let ?M = "byte_bits (msk ! i)" and ?B = "byte_bits (ip ! i)"
  have dM: "drop j ?M = bit (msk ! i) j # drop (Suc j) ?M"
    using j by (simp add: Cons_nth_drop_Suc[symmetric] byte_bits_nth)
  have dB: "drop j ?B = bit (ip ! i) j # drop (Suc j) ?B"
    using j by (simp add: Cons_nth_drop_Suc[symmetric] byte_bits_nth)
  have tB: "take (Suc j) ?B = take j ?B @ [bit (ip ! i) j]"
    using j by (simp add: take_Suc_conv_app_nth byte_bits_nth)
  show ?case
  proof (cases "bit (msk ! i) j")
    case True
    from Suc.hyps(1)[OF k Suc.prems(1) Suc.prems(2) sj]
    obtain b' where b': "next_bits i (Suc j) msk ip
               = Inr (fst (bit_step (drop (Suc j) ?M) (drop (Suc j) ?B)), ip[i := b'])"
      "byte_bits b' = take (Suc j) ?B @ snd (bit_step (drop (Suc j) ?M) (drop (Suc j) ?B))"
      by blast
    have "next_bits i j msk ip = next_bits i (Suc j) msk ip"
      using j True Suc.prems by (subst next_bits.simps) (simp add: bit_of_bit)
    then show ?thesis
      using b' True by (intro exI[of _ b']) (simp add: dM dB tB)
  next
    case False
    show ?thesis
    proof (cases "bit (ip ! i) j")
      case clear: False
      have "next_bits i j msk ip = Inr (True, ip[i := ip ! i OR push_bit j 1])"
        using j False clear Suc.prems by (subst next_bits.simps) (simp add: bit_of_bit)
      moreover have "?B[j := True] = take j ?B @ True # drop (Suc j) ?B"
        using j by (simp add: upd_conv_take_nth_drop)
      then have "byte_bits (ip ! i OR push_bit j 1) = take j ?B @ True # drop (Suc j) ?B"
        by (simp only: byte_bits_set[OF j])
      ultimately show ?thesis
        using False clear by (intro exI[of _ "ip ! i OR push_bit j 1"]) (simp add: dM dB)
    next
      case set: True
      define ip2 where "ip2 = ip[i := ip ! i AND NOT (push_bit j 1)]"
      have "ip2 ! i = ip ! i AND NOT (push_bit j 1)"
        using Suc.prems(2) by (simp add: ip2_def)
      then have B2: "byte_bits (ip2 ! i) = ?B[j := False]"
        by (simp only: byte_bits_clear[OF j])
      have li: "i < length ip2" using Suc.prems(2) by (simp add: ip2_def)
      from Suc.hyps(1)[OF k Suc.prems(1) li sj]
      obtain b' where b': "next_bits i (Suc j) msk ip2
               = Inr (fst (bit_step (drop (Suc j) ?M) (drop (Suc j) (byte_bits (ip2 ! i)))), ip2[i := b'])"
        "byte_bits b' = take (Suc j) (byte_bits (ip2 ! i))
             @ snd (bit_step (drop (Suc j) ?M) (drop (Suc j) (byte_bits (ip2 ! i))))"
        by blast
      have d2: "drop (Suc j) (byte_bits (ip2 ! i)) = drop (Suc j) ?B"
        unfolding B2 by simp
      have t2: "take (Suc j) (byte_bits (ip2 ! i)) = take j ?B @ [False]"
        unfolding B2 using j by (simp add: take_Suc_conv_app_nth)
      have u2: "ip2[i := b'] = ip[i := b']" by (simp add: ip2_def)
      have "next_bits i j msk ip = next_bits i (Suc j) msk ip2"
        unfolding ip2_def using j False set Suc.prems
        by (subst next_bits.simps) (simp add: bit_of_bit)
      then have "next_bits i j msk ip
               = Inr (fst (bit_step (drop (Suc j) ?M) (drop (Suc j) ?B)), ip[i := b'])"
        using b'(1) by (simp only: d2 u2)
      moreover have "byte_bits b' = take j ?B @ False # snd (bit_step (drop (Suc j) ?M) (drop (Suc j) ?B))"
        using b'(2) by (simp only: d2 t2 append_assoc append_Cons append_Nil)
      ultimately show ?thesis
        using False set by (intro exI[of _ b']) (simp add: dM dB)
    qed
  qed
qed

lemma bit_step_append:
  "length ms1 = length bs1 \<Longrightarrow>
   bit_step (ms1 @ ms2) (bs1 @ bs2) =
     (if fst (bit_step ms1 bs1) then (True, snd (bit_step ms1 bs1) @ bs2)
      else (fst (bit_step ms2 bs2), snd (bit_step ms1 bs1) @ snd (bit_step ms2 bs2)))"
proof (induction ms1 bs1 rule: list_induct2)
  case Nil
  then show ?case by (cases "bit_step ms2 bs2") simp
next
  case (Cons m ms b bs)
  then show ?case by simp
qed

lemma scan_bits_Cons: "scan_bits (x # xs) = scan_bits xs @ byte_bits x"
  by (simp add: scan_bits_def)

lemma scan_bits_snoc: "scan_bits (xs @ [x]) = byte_bits x @ scan_bits xs"
  by (simp add: scan_bits_def)

lemma scan_bits_take_Suc: "i < length xs \<Longrightarrow> scan_bits (take (Suc i) xs) = byte_bits (xs ! i) @ scan_bits (take i xs)"
  by (simp add: take_Suc_conv_app_nth scan_bits_snoc)

lemma length_scan_bits [simp]: "length (scan_bits xs) = 8 * length xs"
  by (induction xs) (simp_all add: scan_bits_Cons, simp add: scan_bits_def)

lemma next_bytes_step:
  "n \<le> length ip \<Longrightarrow> n \<le> length msk \<Longrightarrow>
   \<exists>ip'. next_bytes n msk ip = Inr ip' \<and> length ip' = length ip \<and> drop n ip' = drop n ip
       \<and> scan_bits (take n ip') = snd (bit_step (scan_bits (take n msk)) (scan_bits (take n ip)))"
proof (induction n arbitrary: ip)
  case 0
  then show ?case by (simp add: scan_bits_def)
next
  case (Suc i)
  then have i: "i < length ip" "i < length msk" by simp_all
  let ?M = "byte_bits (msk ! i)" and ?B = "byte_bits (ip ! i)"
  from next_bits_step[OF i(2) i(1), of 0]
  obtain b' where b': "next_bits i 0 msk ip = Inr (fst (bit_step ?M ?B), ip[i := b'])"
    "byte_bits b' = snd (bit_step ?M ?B)"
    by auto
  have app: "bit_step (scan_bits (take (Suc i) msk)) (scan_bits (take (Suc i) ip))
      = (if fst (bit_step ?M ?B) then (True, snd (bit_step ?M ?B) @ scan_bits (take i ip))
         else (fst (bit_step (scan_bits (take i msk)) (scan_bits (take i ip))),
               snd (bit_step ?M ?B) @ snd (bit_step (scan_bits (take i msk)) (scan_bits (take i ip)))))"
    using i by (simp add: scan_bits_take_Suc bit_step_append)
  show ?case
  proof (cases "fst (bit_step ?M ?B)")
    case True
    have "next_bytes (Suc i) msk ip = Inr (ip[i := b'])"
      using b'(1) True by simp
    moreover have "scan_bits (take (Suc i) (ip[i := b'])) = byte_bits b' @ scan_bits (take i ip)"
      using i by (simp add: scan_bits_take_Suc)
    ultimately show ?thesis using True app b'(2) by simp
  next
    case False
    let ?ip = "ip[i := b']"
    from Suc.IH[of ?ip] Suc.prems
    obtain ip' where ip': "next_bytes i msk ?ip = Inr ip'" "length ip' = length ip"
      "drop i ip' = drop i ?ip"
      "scan_bits (take i ip') = snd (bit_step (scan_bits (take i msk)) (scan_bits (take i ?ip)))"
      by auto
    have nth: "ip' ! i = b'"
    proof -
      have "ip' ! i = drop i ip' ! 0" using ip'(2) i by simp
      also have "\<dots> = drop i ?ip ! 0" using ip'(3) by simp
      also have "\<dots> = b'" using i by simp
      finally show ?thesis .
    qed
    have dr: "drop (Suc i) ip' = drop (Suc i) ip"
    proof -
      have "drop (Suc i) ip' = drop 1 (drop i ip')" by simp
      also have "\<dots> = drop 1 (drop i ?ip)" using ip'(3) by simp
      also have "\<dots> = drop (Suc i) ip" by simp
      finally show ?thesis .
    qed
    have "next_bytes (Suc i) msk ip = Inr ip'"
      using b'(1) False ip'(1) by simp
    moreover have "scan_bits (take (Suc i) ip') = byte_bits b' @ scan_bits (take i ip')"
      using i ip'(2) nth by (simp add: scan_bits_take_Suc)
    ultimately show ?thesis using False app b'(2) ip'(2,4) dr by simp
  qed
qed

lemma scan_bits_inj: "length xs = length ys \<Longrightarrow> scan_bits xs = scan_bits ys \<Longrightarrow> xs = ys"
proof (induction xs ys rule: list_induct2)
  case Nil
  then show ?case by simp
next
  case (Cons x xs y ys)
  from Cons.prems have "scan_bits xs @ byte_bits x = scan_bits ys @ byte_bits y"
    by (simp add: scan_bits_Cons)
  moreover have "length (scan_bits xs) = length (scan_bits ys)" using Cons.hyps by simp
  ultimately have "scan_bits xs = scan_bits ys \<and> byte_bits x = byte_bits y" by simp
  then show ?case using Cons.IH byte_bits_inj by auto
qed

lemma care_bits_map2: "care_bits ms bs = map2 (\<and>) ms bs"
  by (induction ms bs rule: care_bits.induct) simp_all

lemma care_bits_append:
  "length ms1 = length bs1 \<Longrightarrow> care_bits (ms1 @ ms2) (bs1 @ bs2) = care_bits ms1 bs1 @ care_bits ms2 bs2"
  by (simp add: care_bits_map2)

lemma care_bits_byte: "care_bits (byte_bits m) (byte_bits x) = byte_bits (x AND m)"
  by (simp add: care_bits_map2 byte_bits_and and.commute)

lemma scan_bits_and:
  "length xs = length ms \<Longrightarrow>
   scan_bits (map2 (\<lambda>x y. x AND y) xs ms) = care_bits (scan_bits ms) (scan_bits xs)"
proof (induction xs ms rule: list_induct2)
  case Nil
  then show ?case by (simp add: scan_bits_def)
next
  case (Cons x xs m ms)
  then show ?case by (simp add: scan_bits_Cons care_bits_append care_bits_byte)
qed

section \<open>Well-formed Wildcards\<close>

lemma bitop_same_length:
  assumes "length (IP a) = length (IP b)" and "length (IP b) = 4 \<or> length (IP b) = 16"
  shows "bitop_loop f 0 (IPSize (IP b)) (IP a) (IP b) = Inr (map2 f (IP a) (IP b))"
proof -
  have "IPSize (IP b) = length (IP b)" using assms(2) by (rule IPSize_canonical)
  then show ?thesis
    using bitop_loop_eq[of "length (IP b)" "IP a" "IP b" f] assms(1) by simp
qed

lemma And_same_length:
  "length (IP a) = length (IP b) \<Longrightarrow> length (IP b) = 4 \<or> length (IP b) = 16 \<Longrightarrow>
   And a b = Inr (map2 (\<lambda>x y. x AND y) (IP a) (IP b))"
  by (simp add: And_def bitop_same_length)

lemma Or_same_length:
  "length (IP a) = length (IP b) \<Longrightarrow> length (IP b) = 4 \<or> length (IP b) = 16 \<Longrightarrow>
   Or a b = Inr (map2 (\<lambda>x y. x OR y) (IP a) (IP b))"
  by (simp add: Or_def bitop_same_length)

lemma Xor_same_length:
  "length (IP a) = length (IP b) \<Longrightarrow> length (IP b) = 4 \<or> length (IP b) = 16 \<Longrightarrow>
   Xor a b = Inr (map2 (\<lambda>x y. x XOR y) (IP a) (IP b))"
  by (simp add: Xor_def bitop_same_length)

lemma canonical_cases:
  "length x = 4 \<or> (length x = 16 \<and> take 12 x \<noteq> v4InV6Prefix) \<Longrightarrow> IP x = x"
  by (auto simp: IP_len4 canonical_16)

lemma map2_and_idem: "map2 (\<lambda>x y. x AND y) (map2 (\<lambda>x y. x AND y) xs ms) ms = map2 (\<lambda>x y. x AND y) xs ms"
  by (induction xs ms rule: list_induct2') simp_all

lemma wf_lengths:
  "well_formed w \<Longrightarrow> length (w_ip w) = length (w_mask w) \<and> length (w_bits w) = length (w_mask w)
     \<and> (length (w_mask w) = 4 \<or> length (w_mask w) = 16)"
  by (auto simp: well_formed_def)

lemma wf_canonical:
  assumes "well_formed w" and "length x = length (w_mask w)"
    and "map2 (\<lambda>x y. x AND y) x (w_mask w) = w_bits w"
  shows "IP x = x"
proof (rule canonical_cases)
  show "length x = 4 \<or> (length x = 16 \<and> take 12 x \<noteq> v4InV6Prefix)"
  proof (cases "length (w_mask w) = 4")
    case True
    then show ?thesis using assms(2) by simp
  next
    case False
    with assms(1) have l: "length (w_mask w) = 16"
      and ne: "map2 (\<lambda>x y. x AND y) v4InV6Prefix (take 12 (w_mask w)) \<noteq> take 12 (w_bits w)"
      by (auto simp: well_formed_def)
    have "take 12 (w_bits w) = map2 (\<lambda>x y. x AND y) (take 12 x) (take 12 (w_mask w))"
      using assms(3) by (simp add: take_map take_zip flip: assms(3))
    with ne have "take 12 x \<noteq> v4InV6Prefix" by auto
    then show ?thesis using l assms(2) by simp
  qed
qed

lemma wf_ip: "well_formed w \<Longrightarrow> IP (w_ip w) = w_ip w"
  by (rule wf_canonical) (auto simp: well_formed_def)

lemma wf_bits_and: "well_formed w \<Longrightarrow> map2 (\<lambda>x y. x AND y) (w_bits w) (w_mask w) = w_bits w"
  using map2_and_idem[of "w_ip w" "w_mask w"] by (simp add: well_formed_def)

lemma wf_bits: "well_formed w \<Longrightarrow> IP (w_bits w) = w_bits w"
  by (rule wf_canonical) (auto simp: wf_bits_and wf_lengths)

lemma wf_mask: "well_formed w \<Longrightarrow> IP (w_mask w) = w_mask w"
  by (rule canonical_cases) (auto simp: well_formed_def)

lemma wf_wildcard: "well_formed w \<Longrightarrow> IP (Complement (w_mask w)) = Complement (w_mask w)"
  by (rule canonical_cases) (auto simp: well_formed_def Complement_map)

lemma Equal_same_length: "length a = length b \<Longrightarrow> Equal a b = (a = b)"
  by (simp add: Equal_def)

lemma wf_Matches:
  assumes "well_formed w" and "length (IP x) = length (w_mask w)"
  shows "Matches w x = Inr (map2 (\<lambda>x y. x AND y) (IP x) (w_mask w) = w_bits w)"
proof -
  have m: "IP (w_mask w) = w_mask w" using assms(1) by (rule wf_mask)
  have "And x (w_mask w) = Inr (map2 (\<lambda>x y. x AND y) (IP x) (w_mask w))"
    using And_same_length[of x "w_mask w"] assms wf_lengths[of w] m by simp
  moreover have "length (map2 (\<lambda>x y. x AND y) (IP x) (w_mask w)) = length (w_bits w)"
    using assms wf_lengths[of w] by simp
  ultimately show ?thesis by (simp add: Matches_def Equal_same_length)
qed

lemma wf_First:
  assumes "well_formed w"
  shows "First w = \<lparr>w_ip = w_bits w, w_bits = w_bits w, w_mask = w_mask w\<rparr>"
    and "well_formed (First w)"
proof -
  show f: "First w = \<lparr>w_ip = w_bits w, w_bits = w_bits w, w_mask = w_mask w\<rparr>"
    using assms by (simp add: First_def wf_bits wf_mask)
  show "well_formed (First w)"
    unfolding f using assms wf_bits_and[OF assms] by (simp add: well_formed_def)
qed

lemma map2_or_not_and:
  "length xs = length ms \<Longrightarrow> map2 (\<lambda>x y. x AND y) xs ms = xs \<Longrightarrow>
   map2 (\<lambda>x y. x AND y) (map2 (\<lambda>x y. x OR y) xs (map (\<lambda>b. NOT b) ms)) ms = xs"
proof (induction xs ms rule: list_induct2)
  case Nil
  then show ?case by simp
next
  case (Cons x xs m ms)
  then have "x AND m = x" by simp
  then have "(x OR NOT m) AND m = x"
    by (metis and.commute bit.conj_cancel_left bit.conj_disj_distrib or.right_neutral and.commute)
  with Cons show ?case by simp
qed

lemma wf_Last:
  assumes "well_formed w"
  shows "\<exists>l. Last w = Inr l \<and> well_formed l \<and> w_bits l = w_bits w \<and> w_mask l = w_mask w
           \<and> w_ip l = map2 (\<lambda>x y. x OR y) (w_bits w) (Complement (w_mask w))"
proof -
  let ?c = "Complement (w_mask w)"
  have c: "IP ?c = ?c" using assms by (rule wf_wildcard)
  have lc: "length ?c = length (w_mask w)" by (simp add: Complement_map)
  have "Or (w_bits w) ?c = Inr (map2 (\<lambda>x y. x OR y) (w_bits w) ?c)"
    using Or_same_length[of "w_bits w" ?c] wf_bits[OF assms] c lc wf_lengths[OF assms] by simp
  then have l: "Last w = Inr \<lparr>w_ip = map2 (\<lambda>x y. x OR y) (w_bits w) ?c,
                               w_bits = w_bits w, w_mask = w_mask w\<rparr>"
    using assms by (simp add: Last_def wf_bits wf_mask)
  have "map2 (\<lambda>x y. x AND y) (map2 (\<lambda>x y. x OR y) (w_bits w) ?c) (w_mask w) = w_bits w"
    using map2_or_not_and[of "w_bits w" "w_mask w"] wf_bits_and[OF assms] wf_lengths[OF assms]
    by (simp add: Complement_map)
  then have "well_formed \<lparr>w_ip = map2 (\<lambda>x y. x OR y) (w_bits w) ?c,
                               w_bits = w_bits w, w_mask = w_mask w\<rparr>"
    using assms lc by (simp add: well_formed_def)
  with l show ?thesis by simp
qed

lemma wf_IPSize: "well_formed w \<Longrightarrow> IPSize (w_ip w) = length (w_mask w)"
  using IPSize_canonical[of "w_ip w"] wf_lengths[of w] wf_ip[of w] by simp

lemma wf_care_bits:
  "well_formed w \<Longrightarrow> care_bits (scan_bits (w_mask w)) (scan_bits (w_ip w)) = scan_bits (w_bits w)"
  using scan_bits_and[of "w_ip w" "w_mask w"] by (simp add: well_formed_def)

lemma wf_update_ip:
  assumes "well_formed w" and "length ip' = length (w_mask w)"
    and "care_bits (scan_bits (w_mask w)) (scan_bits ip') = scan_bits (w_bits w)"
  shows "well_formed (w\<lparr>w_ip := ip'\<rparr>)"
proof -
  have "scan_bits (map2 (\<lambda>x y. x AND y) ip' (w_mask w)) = scan_bits (w_bits w)"
    using scan_bits_and[of ip' "w_mask w"] assms(2,3) by simp
  moreover have "length (map2 (\<lambda>x y. x AND y) ip' (w_mask w)) = length (w_bits w)"
    using assms(2) wf_lengths[OF assms(1)] by simp
  ultimately have "map2 (\<lambda>x y. x AND y) ip' (w_mask w) = w_bits w"
    by (rule scan_bits_inj[rotated])
  then show ?thesis using assms(1,2) by (simp add: well_formed_def)
qed

lemma wf_Next:
  assumes "well_formed w"
  shows "\<exists>ip'. Next w = Inr (ip', w\<lparr>w_ip := ip'\<rparr>) \<and> well_formed (w\<lparr>w_ip := ip'\<rparr>)
           \<and> scan_bits ip' = snd (bit_step (scan_bits (w_mask w)) (scan_bits (w_ip w)))"
proof -
  let ?n = "length (w_mask w)"
  have l: "length (w_ip w) = ?n" using wf_lengths[OF assms] by simp
  from next_bytes_step[of ?n "w_ip w" "w_mask w"] l
  obtain ip' where ip': "next_bytes ?n (w_mask w) (w_ip w) = Inr ip'" "length ip' = ?n"
    "scan_bits ip' = snd (bit_step (scan_bits (w_mask w)) (scan_bits (w_ip w)))"
    by auto
  have "care_bits (scan_bits (w_mask w)) (scan_bits ip') = scan_bits (w_bits w)"
    unfolding ip'(3) by (simp add: care_bits_bit_step wf_care_bits[OF assms])
  then have "well_formed (w\<lparr>w_ip := ip'\<rparr>)"
    using assms ip'(2) by (intro wf_update_ip)
  moreover have "Next w = Inr (ip', w\<lparr>w_ip := ip'\<rparr>)"
    using ip'(1) by (simp add: Next_def wf_IPSize[OF assms])
  ultimately show ?thesis using ip'(3) by blast
qed

lemma wf_Next_times:
  "well_formed w \<Longrightarrow>
   \<exists>w'. Next_times n w = Inr w' \<and> well_formed w' \<and> w_bits w' = w_bits w \<and> w_mask w' = w_mask w
       \<and> free_value (scan_bits (w_mask w)) (scan_bits (w_ip w'))
           = (free_value (scan_bits (w_mask w)) (scan_bits (w_ip w)) + n)
             mod 2 ^ free_count (scan_bits (w_mask w))"
proof (induction n arbitrary: w)
  case 0
  then show ?case using free_value_bound[of "scan_bits (w_mask w)" "scan_bits (w_ip w)"] by simp
next
  case (Suc n)
  let ?M = "scan_bits (w_mask w)"
  from wf_Next[OF Suc.prems] obtain ip' where ip': "Next w = Inr (ip', w\<lparr>w_ip := ip'\<rparr>)"
    "well_formed (w\<lparr>w_ip := ip'\<rparr>)"
    "scan_bits ip' = snd (bit_step ?M (scan_bits (w_ip w)))"
    by blast
  have "length ?M = length (scan_bits (w_ip w))"
    using wf_lengths[OF Suc.prems] by simp
  then have v1: "free_value ?M (scan_bits ip') = (free_value ?M (scan_bits (w_ip w)) + 1) mod 2 ^ free_count ?M"
    unfolding ip'(3) using free_value_bit_step[of ?M "scan_bits (w_ip w)"] by simp
  from Suc.IH[OF ip'(2)] obtain w' where w': "Next_times n (w\<lparr>w_ip := ip'\<rparr>) = Inr w'"
    "well_formed w'" "w_bits w' = w_bits w" "w_mask w' = w_mask w"
    "free_value ?M (scan_bits (w_ip w')) = (free_value ?M (scan_bits ip') + n) mod 2 ^ free_count ?M"
    by auto
  have "free_value ?M (scan_bits (w_ip w'))
        = (free_value ?M (scan_bits (w_ip w)) + 1 + n) mod 2 ^ free_count ?M"
    unfolding w'(5) v1 by (rule mod_add_left_eq)
  then show ?case using ip'(1) w'(1-4) by simp
qed

lemma wf_same_cursor:
  assumes "well_formed w" and "well_formed w'" and "w_bits w' = w_bits w" and "w_mask w' = w_mask w"
    and "free_value (scan_bits (w_mask w)) (scan_bits (w_ip w'))
         = free_value (scan_bits (w_mask w)) (scan_bits (w_ip w))"
  shows "w_ip w' = w_ip w"
proof -
  have "scan_bits (w_ip w') = scan_bits (w_ip w)"
  proof (rule care_bits_free_value_inj[of _ "scan_bits (w_mask w)"])
    show "length (scan_bits (w_ip w')) = length (scan_bits (w_mask w))"
      using wf_lengths[OF assms(2)] assms(4) by simp
    show "length (scan_bits (w_ip w)) = length (scan_bits (w_mask w))"
      using wf_lengths[OF assms(1)] by simp
    show "care_bits (scan_bits (w_mask w)) (scan_bits (w_ip w'))
          = care_bits (scan_bits (w_mask w)) (scan_bits (w_ip w))"
      using wf_care_bits[OF assms(1)] wf_care_bits[OF assms(2)] assms(3,4) by simp
    show "free_value (scan_bits (w_mask w)) (scan_bits (w_ip w'))
          = free_value (scan_bits (w_mask w)) (scan_bits (w_ip w))"
      by (rule assms(5))
  qed
  moreover have "length (w_ip w') = length (w_ip w)"
    using wf_lengths[OF assms(1)] wf_lengths[OF assms(2)] assms(4) by simp
  ultimately show ?thesis by (rule scan_bits_inj[rotated])
qed

lemma wf_Next_cycle:
  assumes "well_formed w"
  shows "\<exists>w'. Next_times (2 ^ dont_care_bits w) w = Inr w' \<and> w_ip w' = w_ip w"
proof -
  let ?M = "scan_bits (w_mask w)"
  from wf_Next_times[OF assms, of "2 ^ dont_care_bits w"]
  obtain w' where w': "Next_times (2 ^ dont_care_bits w) w = Inr w'"
    "well_formed w'" "w_bits w' = w_bits w" "w_mask w' = w_mask w"
    "free_value ?M (scan_bits (w_ip w')) = (free_value ?M (scan_bits (w_ip w)) + 2 ^ dont_care_bits w)
             mod 2 ^ free_count ?M"
    by blast
  have "free_value ?M (scan_bits (w_ip w')) = free_value ?M (scan_bits (w_ip w))"
    using w'(5) free_value_bound[of ?M "scan_bits (w_ip w)"] by (simp add: dont_care_bits_def)
  then have "w_ip w' = w_ip w"
    using assms w'(2-4) by (intro wf_same_cursor)
  with w'(1) show ?thesis by blast
qed

lemma free_value_care_bits: "free_value ms (care_bits ms bs) = 0"
  by (induction ms bs rule: care_bits.induct) simp_all

lemma wf_First_value:
  assumes "well_formed w"
  shows "free_value (scan_bits (w_mask w)) (scan_bits (w_ip (First w))) = 0"
proof -
  have "scan_bits (w_ip (First w)) = care_bits (scan_bits (w_mask w)) (scan_bits (w_ip w))"
    using wf_First(1)[OF assms] wf_care_bits[OF assms] by simp
  then show ?thesis by (simp add: free_value_care_bits)
qed

lemma wf_First_times:
  assumes "well_formed w" and "n < 2 ^ dont_care_bits w"
  shows "\<exists>w'. Next_times n (First w) = Inr w' \<and> well_formed w' \<and> w_bits w' = w_bits w
           \<and> w_mask w' = w_mask w
           \<and> free_value (scan_bits (w_mask w)) (scan_bits (w_ip w')) = n"
proof -
  have f: "well_formed (First w)" "w_bits (First w) = w_bits w" "w_mask (First w) = w_mask w"
    using wf_First[OF assms(1)] by simp_all
  from wf_Next_times[OF f(1), of n] f(2,3) wf_First_value[OF assms(1)]
  obtain w' where w': "Next_times n (First w) = Inr w'" "well_formed w'" "w_bits w' = w_bits w"
    "w_mask w' = w_mask w"
    "free_value (scan_bits (w_mask w)) (scan_bits (w_ip w')) = n mod 2 ^ free_count (scan_bits (w_mask w))"
    by auto
  then show ?thesis using assms(2) by (auto simp: dont_care_bits_def)
qed

lemma wf_exhaustive:
  assumes "well_formed w" and "length x = length (w_mask w)"
    and "map2 (\<lambda>x y. x AND y) x (w_mask w) = w_bits w"
  shows "\<exists>n<2 ^ dont_care_bits w. \<exists>w'. Next_times n (First w) = Inr w' \<and> w_ip w' = x"
proof -
  let ?M = "scan_bits (w_mask w)"
  let ?n = "free_value ?M (scan_bits x)"
  have n: "?n < 2 ^ dont_care_bits w"
    by (simp add: dont_care_bits_def free_value_bound)
  from wf_First_times[OF assms(1) n]
  obtain w' where w': "Next_times ?n (First w) = Inr w'" "well_formed w'" "w_bits w' = w_bits w"
    "w_mask w' = w_mask w" "free_value ?M (scan_bits (w_ip w')) = ?n"
    by blast
  have "care_bits ?M (scan_bits x) = scan_bits (w_bits w)"
    using scan_bits_and[of x "w_mask w"] assms(2,3) by simp
  then have wx: "well_formed (w\<lparr>w_ip := x\<rparr>)"
    using assms(1,2) by (intro wf_update_ip)
  have "w_ip w' = w_ip (w\<lparr>w_ip := x\<rparr>)"
    using wx w'(2-5) by (intro wf_same_cursor) simp_all
  then show ?thesis using n w'(1) by auto
qed

lemma wf_distinct:
  assumes "well_formed w" and "n1 < 2 ^ dont_care_bits w" and "n2 < 2 ^ dont_care_bits w"
    and "Next_times n1 (First w) = Inr w1" and "Next_times n2 (First w) = Inr w2"
    and "w_ip w1 = w_ip w2"
  shows "n1 = n2"
  using wf_First_times[OF assms(1,2)] wf_First_times[OF assms(1,3)] assms(4-6) by auto

lemma wf_Matches_cursor:
  assumes "well_formed w"
  shows "Matches w (w_ip w) = Inr True"
  using wf_Matches[OF assms, of "w_ip w"] wf_ip[OF assms] wf_lengths[OF assms] assms
  by (simp add: well_formed_def)

lemma wf_visited_match:
  assumes "well_formed w"
  shows "\<exists>w'. Next_times n (First w) = Inr w' \<and> Matches w (w_ip w') = Inr True"
proof -
  have f: "well_formed (First w)" "w_bits (First w) = w_bits w" "w_mask (First w) = w_mask w"
    using wf_First[OF assms(1)] by simp_all
  from wf_Next_times[OF f(1), of n] f(2,3)
  obtain w' where w': "Next_times n (First w) = Inr w'" "well_formed w'" "w_bits w' = w_bits w"
    "w_mask w' = w_mask w"
    by auto
  have "Matches w' (w_ip w') = Inr True" using w'(2) by (rule wf_Matches_cursor)
  moreover have "Matches w (w_ip w') = Matches w' (w_ip w')"
    unfolding Matches_def w'(3,4) by (rule refl)
  ultimately show ?thesis using w'(1) by simp
qed

lemma Complement_involution: "Complement (Complement m) = m"
  by (simp add: Complement_map comp_def)

lemma wf_New:
  assumes "length (IP ip) = length wc"
    and "length wc = 4
         \<or> (length wc = 16 \<and> take 12 wc \<noteq> v4InV6Prefix
            \<and> take 12 (Complement wc) \<noteq> v4InV6Prefix
            \<and> map2 (\<lambda>x y. x AND y) v4InV6Prefix (take 12 (Complement wc))
                \<noteq> take 12 (map2 (\<lambda>x y. x AND y) (IP ip) (Complement wc)))"
  shows "\<exists>w. New ip wc = Inr w \<and> well_formed w \<and> w_ip w = IP ip \<and> w_mask w = Complement wc
           \<and> w_bits w = map2 (\<lambda>x y. x AND y) (IP ip) (Complement wc)"
proof -
  let ?m = "Complement wc"
  have lm: "length ?m = length wc" by (simp add: Complement_map)
  have m: "IP ?m = ?m"
    using assms(2) lm by (intro canonical_cases) auto
  have "And (IP ip) ?m = Inr (map2 (\<lambda>x y. x AND y) (IP ip) ?m)"
    using And_same_length[of "IP ip" ?m] assms lm m by (auto simp: IP_idem)
  then have n: "New ip wc = Inr \<lparr>w_ip = IP ip, w_bits = map2 (\<lambda>x y. x AND y) (IP ip) ?m, w_mask = ?m\<rparr>"
    by (simp add: New_def Let_def m)
  have "well_formed \<lparr>w_ip = IP ip, w_bits = map2 (\<lambda>x y. x AND y) (IP ip) ?m, w_mask = ?m\<rparr>"
    using assms lm by (auto simp: well_formed_def Complement_involution)
  with n show ?thesis by simp
qed

section \<open>Prev on bit lists\<close>

lemma length_bit_back [simp]: "length (snd (bit_back ms bs)) = length bs"
  by (induction ms bs rule: bit_back.induct) auto

lemma care_bits_bit_back: "care_bits ms (snd (bit_back ms bs)) = care_bits ms bs"
  by (induction ms bs rule: bit_back.induct) auto

lemma prev_bits_step:
  assumes "i < length msk" and "i < length ip" and "j \<le> 8"
  shows "\<exists>b'. prev_bits i j msk ip
               = Inr (fst (bit_back (drop j (byte_bits (msk ! i))) (drop j (byte_bits (ip ! i)))),
                      ip[i := b'])
            \<and> byte_bits b' = take j (byte_bits (ip ! i))
                 @ snd (bit_back (drop j (byte_bits (msk ! i))) (drop j (byte_bits (ip ! i))))"
  using assms
proof (induction "8 - j" arbitrary: j ip)
  case 0
  then have j: "j = 8" by simp
  have "prev_bits i j msk ip = Inr (False, ip)"
    using j by (subst prev_bits.simps) simp
  then show ?case using j by (intro exI[of _ "ip ! i"]) simp
next
  case (Suc k)
  then have j: "j < 8" by simp
  have k: "k = 8 - Suc j" using Suc.hyps(2) by linarith
  have sj: "Suc j \<le> 8" using j by simp
  let ?M = "byte_bits (msk ! i)" and ?B = "byte_bits (ip ! i)"
  have dM: "drop j ?M = bit (msk ! i) j # drop (Suc j) ?M"
    using j by (simp add: Cons_nth_drop_Suc[symmetric] byte_bits_nth)
  have dB: "drop j ?B = bit (ip ! i) j # drop (Suc j) ?B"
    using j by (simp add: Cons_nth_drop_Suc[symmetric] byte_bits_nth)
  have tB: "take (Suc j) ?B = take j ?B @ [bit (ip ! i) j]"
    using j by (simp add: take_Suc_conv_app_nth byte_bits_nth)
  show ?case
  proof (cases "bit (msk ! i) j")
    case True
    from Suc.hyps(1)[OF k Suc.prems(1) Suc.prems(2) sj]
    obtain b' where b': "prev_bits i (Suc j) msk ip
               = Inr (fst (bit_back (drop (Suc j) ?M) (drop (Suc j) ?B)), ip[i := b'])"
      "byte_bits b' = take (Suc j) ?B @ snd (bit_back (drop (Suc j) ?M) (drop (Suc j) ?B))"
      by blast
    have "prev_bits i j msk ip = prev_bits i (Suc j) msk ip"
      using j True Suc.prems by (subst prev_bits.simps) (simp add: bit_of_bit)
    then show ?thesis
      using b' True by (intro exI[of _ b']) (simp add: dM dB tB)
  next
    case False
    show ?thesis
    proof (cases "\<not> bit (ip ! i) j")
      case is_set: False
      have "prev_bits i j msk ip = Inr (True, ip[i := ip ! i AND NOT (push_bit j 1)])"
        using j False is_set Suc.prems by (subst prev_bits.simps) (simp add: bit_of_bit)
      moreover have "?B[j := False] = take j ?B @ False # drop (Suc j) ?B"
        using j by (simp add: upd_conv_take_nth_drop)
      then have "byte_bits (ip ! i AND NOT (push_bit j 1)) = take j ?B @ False # drop (Suc j) ?B"
        by (simp only: byte_bits_clear[OF j])
      ultimately show ?thesis
        using False is_set by (intro exI[of _ "ip ! i AND NOT (push_bit j 1)"]) (simp add: dM dB)
    next
      case is_clear: True
      define ip2 where "ip2 = ip[i := ip ! i OR push_bit j 1]"
      have "ip2 ! i = ip ! i OR push_bit j 1"
        using Suc.prems(2) by (simp add: ip2_def)
      then have B2: "byte_bits (ip2 ! i) = ?B[j := True]"
        by (simp only: byte_bits_set[OF j])
      have li: "i < length ip2" using Suc.prems(2) by (simp add: ip2_def)
      from Suc.hyps(1)[OF k Suc.prems(1) li sj]
      obtain b' where b': "prev_bits i (Suc j) msk ip2
               = Inr (fst (bit_back (drop (Suc j) ?M) (drop (Suc j) (byte_bits (ip2 ! i)))), ip2[i := b'])"
        "byte_bits b' = take (Suc j) (byte_bits (ip2 ! i))
             @ snd (bit_back (drop (Suc j) ?M) (drop (Suc j) (byte_bits (ip2 ! i))))"
        by blast
      have d2: "drop (Suc j) (byte_bits (ip2 ! i)) = drop (Suc j) ?B"
        unfolding B2 by simp
      have t2: "take (Suc j) (byte_bits (ip2 ! i)) = take j ?B @ [True]"
        unfolding B2 using j by (simp add: take_Suc_conv_app_nth)
      have u2: "ip2[i := b'] = ip[i := b']" by (simp add: ip2_def)
      have "prev_bits i j msk ip = prev_bits i (Suc j) msk ip2"
        unfolding ip2_def using j False is_clear Suc.prems
        by (subst prev_bits.simps) (simp add: bit_of_bit)
      then have "prev_bits i j msk ip
               = Inr (fst (bit_back (drop (Suc j) ?M) (drop (Suc j) ?B)), ip[i := b'])"
        using b'(1) by (simp only: d2 u2)
      moreover have "byte_bits b' = take j ?B @ True # snd (bit_back (drop (Suc j) ?M) (drop (Suc j) ?B))"
        using b'(2) by (simp only: d2 t2 append_assoc append_Cons append_Nil)
      ultimately show ?thesis
        using False is_clear by (intro exI[of _ b']) (simp add: dM dB)
    qed
  qed
qed

lemma bit_back_append:
  "length ms1 = length bs1 \<Longrightarrow>
   bit_back (ms1 @ ms2) (bs1 @ bs2) =
     (if fst (bit_back ms1 bs1) then (True, snd (bit_back ms1 bs1) @ bs2)
      else (fst (bit_back ms2 bs2), snd (bit_back ms1 bs1) @ snd (bit_back ms2 bs2)))"
proof (induction ms1 bs1 rule: list_induct2)
  case Nil
  then show ?case by (cases "bit_back ms2 bs2") simp
next
  case (Cons m ms b bs)
  then show ?case by simp
qed

lemma prev_bytes_step:
  "n \<le> length ip \<Longrightarrow> n \<le> length msk \<Longrightarrow>
   \<exists>ip'. prev_bytes n msk ip = Inr ip' \<and> length ip' = length ip \<and> drop n ip' = drop n ip
       \<and> scan_bits (take n ip') = snd (bit_back (scan_bits (take n msk)) (scan_bits (take n ip)))"
proof (induction n arbitrary: ip)
  case 0
  then show ?case by (simp add: scan_bits_def)
next
  case (Suc i)
  then have i: "i < length ip" "i < length msk" by simp_all
  let ?M = "byte_bits (msk ! i)" and ?B = "byte_bits (ip ! i)"
  from prev_bits_step[OF i(2) i(1), of 0]
  obtain b' where b': "prev_bits i 0 msk ip = Inr (fst (bit_back ?M ?B), ip[i := b'])"
    "byte_bits b' = snd (bit_back ?M ?B)"
    by auto
  have app: "bit_back (scan_bits (take (Suc i) msk)) (scan_bits (take (Suc i) ip))
      = (if fst (bit_back ?M ?B) then (True, snd (bit_back ?M ?B) @ scan_bits (take i ip))
         else (fst (bit_back (scan_bits (take i msk)) (scan_bits (take i ip))),
               snd (bit_back ?M ?B) @ snd (bit_back (scan_bits (take i msk)) (scan_bits (take i ip)))))"
    using i by (simp add: scan_bits_take_Suc bit_back_append)
  show ?case
  proof (cases "fst (bit_back ?M ?B)")
    case True
    have "prev_bytes (Suc i) msk ip = Inr (ip[i := b'])"
      using b'(1) True by simp
    moreover have "scan_bits (take (Suc i) (ip[i := b'])) = byte_bits b' @ scan_bits (take i ip)"
      using i by (simp add: scan_bits_take_Suc)
    ultimately show ?thesis using True app b'(2) by simp
  next
    case False
    let ?ip = "ip[i := b']"
    from Suc.IH[of ?ip] Suc.prems
    obtain ip' where ip': "prev_bytes i msk ?ip = Inr ip'" "length ip' = length ip"
      "drop i ip' = drop i ?ip"
      "scan_bits (take i ip') = snd (bit_back (scan_bits (take i msk)) (scan_bits (take i ?ip)))"
      by auto
    have nth: "ip' ! i = b'"
    proof -
      have "ip' ! i = drop i ip' ! 0" using ip'(2) i by simp
      also have "\<dots> = drop i ?ip ! 0" using ip'(3) by simp
      also have "\<dots> = b'" using i by simp
      finally show ?thesis .
    qed
    have dr: "drop (Suc i) ip' = drop (Suc i) ip"
    proof -
      have "drop (Suc i) ip' = drop 1 (drop i ip')" by simp
      also have "\<dots> = drop 1 (drop i ?ip)" using ip'(3) by simp
      also have "\<dots> = drop (Suc i) ip" by simp
      finally show ?thesis .
    qed
    have "prev_bytes (Suc i) msk ip = Inr ip'"
      using b'(1) False ip'(1) by simp
    moreover have "scan_bits (take (Suc i) ip') = byte_bits b' @ scan_bits (take i ip')"
      using i ip'(2) nth by (simp add: scan_bits_take_Suc)
    ultimately show ?thesis using False app b'(2) ip'(2,4) dr by simp
  qed
qed

lemma wf_Prev:
  assumes "well_formed w"
  shows "\<exists>ip'. Prev w = Inr (ip', w\<lparr>w_ip := ip'\<rparr>) \<and> well_formed (w\<lparr>w_ip := ip'\<rparr>)
           \<and> scan_bits ip' = snd (bit_back (scan_bits (w_mask w)) (scan_bits (w_ip w)))"
proof -
  let ?n = "length (w_mask w)"
  have l: "length (w_ip w) = ?n" using wf_lengths[OF assms] by simp
  from prev_bytes_step[of ?n "w_ip w" "w_mask w"] l
  obtain ip' where ip': "prev_bytes ?n (w_mask w) (w_ip w) = Inr ip'" "length ip' = ?n"
    "scan_bits ip' = snd (bit_back (scan_bits (w_mask w)) (scan_bits (w_ip w)))"
    by auto
  have "care_bits (scan_bits (w_mask w)) (scan_bits ip') = scan_bits (w_bits w)"
    unfolding ip'(3) by (simp add: care_bits_bit_back wf_care_bits[OF assms])
  then have "well_formed (w\<lparr>w_ip := ip'\<rparr>)"
    using assms ip'(2) by (intro wf_update_ip)
  moreover have "Prev w = Inr (ip', w\<lparr>w_ip := ip'\<rparr>)"
    using ip'(1) by (simp add: Prev_def wf_IPSize[OF assms])
  ultimately show ?thesis using ip'(3) by blast
qed

lemma and_not_xor_left: "x AND NOT (x XOR y) = (x AND y) AND NOT (x XOR y)" for x y :: byte
  by (auto simp: bit_eq_iff bit_simps)

lemma and_not_xor_right: "y AND NOT (x XOR y) = (x AND y) AND NOT (x XOR y)" for x y :: byte
  by (auto simp: bit_eq_iff bit_simps)

lemma map2_and_not_xor:
  "length xs = length ys \<Longrightarrow>
   map2 (\<lambda>x y. x AND y) xs (map (\<lambda>b. NOT b) (map2 (\<lambda>x y. x XOR y) xs ys))
     = map2 (\<lambda>x y. x AND y) (map2 (\<lambda>x y. x AND y) xs ys) (map (\<lambda>b. NOT b) (map2 (\<lambda>x y. x XOR y) xs ys))
   \<and> map2 (\<lambda>x y. x AND y) ys (map (\<lambda>b. NOT b) (map2 (\<lambda>x y. x XOR y) xs ys))
     = map2 (\<lambda>x y. x AND y) (map2 (\<lambda>x y. x AND y) xs ys) (map (\<lambda>b. NOT b) (map2 (\<lambda>x y. x XOR y) xs ys))"
  for xs ys :: bytes
proof (induction xs ys rule: list_induct2)
  case Nil
  then show ?case by simp
next
  case (Cons x xs y ys)
  have "x AND NOT (x XOR y) = (x AND y) AND NOT (x XOR y)" by (rule and_not_xor_left)
  moreover have "y AND NOT (x XOR y) = (x AND y) AND NOT (x XOR y)" by (rule and_not_xor_right)
  ultimately show ?case using Cons.IH by (simp del: bit.xor_compl_left bit.xor_compl_right)
qed

lemma FindWildcard_two:
  assumes "length (IP a) = length (IP b)"
    and "length (IP a) = 4
         \<or> (length (IP a) = 16
            \<and> IP (map2 (\<lambda>x y. x AND y) (IP a) (IP b)) = map2 (\<lambda>x y. x AND y) (IP a) (IP b)
            \<and> IP (Complement (map2 (\<lambda>x y. x XOR y) (IP a) (IP b)))
                = Complement (map2 (\<lambda>x y. x XOR y) (IP a) (IP b)))"
  shows "\<exists>w. FindWildcard a b [] = Inr w \<and> Matches w a = Inr True \<and> Matches w b = Inr True"
proof -
  let ?a = "IP a" and ?b = "IP b"
  let ?x = "map2 (\<lambda>x y. x AND y) ?a ?b" and ?y = "map2 (\<lambda>x y. x XOR y) ?a ?b"
  let ?m = "Complement ?y"
  have lb: "length ?b = 4 \<or> length ?b = 16" using assms by auto
  have la: "length ?a = 4 \<or> length ?a = 16" using assms by auto
  have f: "findWildcard a b = Inr (?x, ?y)"
    using And_same_length[OF assms(1) lb] Xor_same_length[OF assms(1) lb]
    by (simp add: findWildcard_def)
  have lx: "length ?x = length ?a" "length ?m = length ?a"
    using assms(1) by (simp_all add: Complement_map)
  have cx: "IP ?x = ?x" using assms(2) lx(1) by (auto simp: IP_len4)
  have cm: "IP ?m = ?m" using assms(2) lx(2) by (auto simp: IP_len4)
  have lm: "length (IP ?m) = 4 \<or> length (IP ?m) = 16" using la lx(2) cm by simp
  have "And ?x ?m = Inr (map2 (\<lambda>x y. x AND y) ?x ?m)"
    using And_same_length[of ?x ?m] cx cm lx lm by simp
  then have n: "New ?x ?y = Inr \<lparr>w_ip = ?x, w_bits = map2 (\<lambda>x y. x AND y) ?x ?m, w_mask = ?m\<rparr>"
    by (simp add: New_def Let_def cx cm)
  let ?w = "\<lparr>w_ip = ?x, w_bits = map2 (\<lambda>x y. x AND y) ?x ?m, w_mask = ?m\<rparr>"
  have fw: "FindWildcard a b [] = Inr ?w"
    using f n by (simp add: FindWildcard_def)
  have eq: "map2 (\<lambda>x y. x AND y) ?a ?m = map2 (\<lambda>x y. x AND y) ?x ?m"
    "map2 (\<lambda>x y. x AND y) ?b ?m = map2 (\<lambda>x y. x AND y) ?x ?m"
    using map2_and_not_xor[OF assms(1)] by (simp_all add: Complement_map)
  have "And a ?m = Inr (map2 (\<lambda>x y. x AND y) ?a ?m)"
    using And_same_length[of a ?m] cm lx(2) lm by simp
  then have ma: "Matches ?w a = Inr True"
    by (simp add: Matches_def eq(1) Equal_def)
  have "And b ?m = Inr (map2 (\<lambda>x y. x AND y) ?b ?m)"
    using And_same_length[of b ?m] cm lx(2) lm assms(1) by simp
  then have mb: "Matches ?w b = Inr True"
    by (simp add: Matches_def eq(2) Equal_def)
  from fw ma mb show ?thesis by blast
qed

section \<open>Package wildcard: the claims\<close>

text \<open>
  Claim C1, and where the code leaves it. For two addresses of the same family
  FindWildcard returns a Wildcard that matches both (for 16 bytes, provided neither the
  AND of the two addresses nor the complement of their XOR is an IPv4-mapped address).
  With a third address the claim fails on the code: on the three addresses of the
  repository's own test, 192.0.2.134, 192.0.6.6 and 192.0.254.70, the result is
  192.0.2.6 with the wildcard mask 0.0.252.64, which does not match 192.0.2.134, since
  each round of the loop replaces the running XOR instead of accumulating it. On two
  16-byte addresses whose AND is IPv4-mapped, FindWildcard panics.
\<close>

theorem FindWildcard_matches:
  assumes "length (IP a) = length (IP b)"
    and "length (IP a) = 4
         \<or> (length (IP a) = 16
            \<and> IP (map2 (\<lambda>x y. x AND y) (IP a) (IP b)) = map2 (\<lambda>x y. x AND y) (IP a) (IP b)
            \<and> IP (Complement (map2 (\<lambda>x y. x XOR y) (IP a) (IP b)))
                = Complement (map2 (\<lambda>x y. x XOR y) (IP a) (IP b)))"
  shows "(\<exists>w. FindWildcard a b [] = Inr w \<and> Matches w a = Inr True \<and> Matches w b = Inr True)
       \<and> (case FindWildcard [192, 0, 2, 134] [192, 0, 6, 6] [[192, 0, 254, 70]] of
            Inl e \<Rightarrow> False
          | Inr w \<Rightarrow> Wildcard_IP w = [192, 0, 2, 6] \<and> Wildcard_Wildcard w = [0, 0, 252, 64]
                     \<and> Matches w [192, 0, 2, 134] = Inr False)
       \<and> FindWildcard [0, 1, 0, 0, 0, 0, 0, 0, 0, 0, 0xff, 0xff, 1, 2, 3, 4]
                        [0, 2, 0, 0, 0, 0, 0, 0, 0, 0, 0xff, 0xff, 1, 2, 3, 4] []
           = Inl IndexOutOfRange"
  using FindWildcard_two[OF assms] FindWildcard_three_fails by blast

theorem FindWildcard_matches_witness:
  "length (IP [192, 0, 2, 1]) = length (IP [192, 0, 2, 255]) \<and> length (IP [192, 0, 2, 1]) = 4
   \<and> FindWildcard [192, 0, 2, 1] [192, 0, 2, 255] []
       = Inr \<lparr>w_ip = [192, 0, 2, 1], w_bits = [192, 0, 2, 1], w_mask = [255, 255, 255, 1]\<rparr>
   \<and> Matches \<lparr>w_ip = [192, 0, 2, 1], w_bits = [192, 0, 2, 1], w_mask = [255, 255, 255, 1]\<rparr>
        [192, 0, 2, 1] = Inr True
   \<and> Matches \<lparr>w_ip = [192, 0, 2, 1], w_bits = [192, 0, 2, 1], w_mask = [255, 255, 255, 1]\<rparr>
        [192, 0, 2, 255] = Inr True"
proof -
  have l: "length (IP [192, 0, 2, 1]) = length (IP [192, 0, 2, 255])" by code_simp
  have f: "length (IP [192, 0, 2, 1]) = 4" by code_simp
  have w: "FindWildcard [192, 0, 2, 1] [192, 0, 2, 255] []
       = Inr \<lparr>w_ip = [192, 0, 2, 1], w_bits = [192, 0, 2, 1], w_mask = [255, 255, 255, 1]\<rparr>"
    by code_simp
  from FindWildcard_matches [OF l disjI1, OF f] w l f show ?thesis by auto
qed

text \<open>
  Claim C2, and where the code leaves it. On every well-formed Wildcard \<open>w\<close> with
  \<open>k\<close> don't-care bits, \<open>2 ^ k\<close> calls of \<open>Next\<close> from \<open>First\<close> lead back to
  \<open>First\<close>'s address; every address that agrees with the fixed bits on the care bits
  is reached after fewer than \<open>2 ^ k\<close> calls; and every address reached matches
  \<open>w\<close>. Outside the well-formed Wildcards the claim fails on the code: the 16-byte
  Wildcard \<open>::fffe:0:0\<close> with the wildcard mask \<open>::1:0:0\<close> has one don't-care bit,
  its first \<open>Next\<close> gives the IPv4-mapped \<open>::ffff:0.0.0.0\<close>, and the second
  \<open>Next\<close>, which takes the byte count 4 from \<open>IPSize\<close> of that cursor, stays there.
\<close>

theorem Next_enumerates:
  assumes "well_formed w"
  shows "(\<exists>w'. Next_times (2 ^ dont_care_bits w) (First w) = Inr w'
               \<and> Wildcard_IP w' = Wildcard_IP (First w))
       \<and> (\<forall>x. length x = length (w_mask w) \<and> map2 (\<lambda>x y. x AND y) x (w_mask w) = w_bits w
              \<longrightarrow> (\<exists>n<2 ^ dont_care_bits w. \<exists>w'. Next_times n (First w) = Inr w'
                                                 \<and> Wildcard_IP w' = x))
       \<and> (\<forall>n. \<exists>w'. Next_times n (First w) = Inr w' \<and> Matches w (Wildcard_IP w') = Inr True)
       \<and> (case New [0, 0, 0, 0, 0, 0, 0, 0, 0, 0, 0xff, 0xfe, 0, 0, 0, 0]
                    [0, 0, 0, 0, 0, 0, 0, 0, 0, 0, 0, 1, 0, 0, 0, 0] of
            Inl e \<Rightarrow> False
          | Inr w \<Rightarrow>
              dont_care_bits w = 1
              \<and> Wildcard_IP (First w) = [0, 0, 0, 0, 0, 0, 0, 0, 0, 0, 0xff, 0xfe, 0, 0, 0, 0]
              \<and> (case Next_times 1 (First w) of
                    Inl e \<Rightarrow> False
                  | Inr w' \<Rightarrow> Wildcard_IP w' = [0, 0, 0, 0, 0, 0, 0, 0, 0, 0, 0xff, 0xff, 0, 0, 0, 0])
              \<and> (case Next_times 2 (First w) of
                    Inl e \<Rightarrow> False
                  | Inr w' \<Rightarrow> Wildcard_IP w' = [0, 0, 0, 0, 0, 0, 0, 0, 0, 0, 0xff, 0xff, 0, 0, 0, 0]))"
proof -
  have f: "well_formed (First w)" "dont_care_bits (First w) = dont_care_bits w"
    using wf_First[OF assms] by (simp_all add: dont_care_bits_def)
  have "\<exists>w'. Next_times (2 ^ dont_care_bits w) (First w) = Inr w'
               \<and> Wildcard_IP w' = Wildcard_IP (First w)"
    using wf_Next_cycle[OF f(1)] f(2) by (simp add: Wildcard_IP_def)
  moreover have "\<forall>x. length x = length (w_mask w) \<and> map2 (\<lambda>x y. x AND y) x (w_mask w) = w_bits w
              \<longrightarrow> (\<exists>n<2 ^ dont_care_bits w. \<exists>w'. Next_times n (First w) = Inr w'
                                                 \<and> Wildcard_IP w' = x)"
    using wf_exhaustive[OF assms] by (simp add: Wildcard_IP_def)
  moreover have "\<forall>n. \<exists>w'. Next_times n (First w) = Inr w' \<and> Matches w (Wildcard_IP w') = Inr True"
    using wf_visited_match[OF assms] by (simp add: Wildcard_IP_def)
  ultimately show ?thesis using Next_stuck_fails by blast
qed

theorem Next_enumerates_witness:
  "well_formed \<lparr>w_ip = [192, 0, 2, 252], w_bits = [192, 0, 2, 0], w_mask = [255, 255, 255, 1]\<rparr>
   \<and> dont_care_bits \<lparr>w_ip = [192, 0, 2, 252], w_bits = [192, 0, 2, 0], w_mask = [255, 255, 255, 1]\<rparr> = 7
   \<and> Wildcard_IP (First \<lparr>w_ip = [192, 0, 2, 252], w_bits = [192, 0, 2, 0], w_mask = [255, 255, 255, 1]\<rparr>)
       = [192, 0, 2, 0]
   \<and> (\<exists>w'. Next_times (2 ^ 7)
              (First \<lparr>w_ip = [192, 0, 2, 252], w_bits = [192, 0, 2, 0], w_mask = [255, 255, 255, 1]\<rparr>)
            = Inr w' \<and> Wildcard_IP w' = [192, 0, 2, 0])"
proof -
  have wf: "well_formed \<lparr>w_ip = [192, 0, 2, 252], w_bits = [192, 0, 2, 0], w_mask = [255, 255, 255, 1]\<rparr>"
    by code_simp
  have k: "dont_care_bits \<lparr>w_ip = [192, 0, 2, 252], w_bits = [192, 0, 2, 0], w_mask = [255, 255, 255, 1]\<rparr> = 7"
    by code_simp
  have f: "Wildcard_IP (First \<lparr>w_ip = [192, 0, 2, 252], w_bits = [192, 0, 2, 0], w_mask = [255, 255, 255, 1]\<rparr>)
       = [192, 0, 2, 0]"
    by code_simp
  from Next_enumerates [OF wf] wf k f show ?thesis by simp
qed

lemma New_fields: "New ip wc = Inr w \<Longrightarrow> w_ip w = IP ip \<and> w_mask w = IP (Complement wc)"
  by (auto simp: New_def Let_def split: sum.splits)

lemma New_mask:
  assumes "New ip wc = Inr w" and "well_formed w" and "length (IP ip) = length wc"
  shows "w_mask w = Complement wc"
proof -
  have "length (IP (Complement wc)) = length (Complement wc)"
    using New_fields[OF assms(1)] wf_lengths[OF assms(2)] assms(3) by (simp add: Complement_map)
  have "IP (Complement wc) = Complement wc"
  proof (rule ccontr)
    assume "IP (Complement wc) \<noteq> Complement wc"
    then have "length (Complement wc) = 16 \<and> length (IP (Complement wc)) = 4"
      by (rule IP_changes)
    with \<open>length (IP (Complement wc)) = length (Complement wc)\<close> show False by simp
  qed
  then show ?thesis using New_fields[OF assms(1)] by simp
qed

lemma wf_Matches_First: "well_formed w \<Longrightarrow> Matches w (Wildcard_IP (First w)) = Inr True"
  using wf_Matches[of w "w_bits w"] wf_First(1)[of w] wf_bits[of w] wf_bits_and[of w] wf_lengths[of w]
  by (simp add: Wildcard_IP_def)

lemma wf_Matches_Last:
  assumes "well_formed w"
  shows "\<exists>l. Last w = Inr l \<and> Matches w (Wildcard_IP l) = Inr True"
proof -
  from wf_Last[OF assms] obtain l where l: "Last w = Inr l" "well_formed l" "w_bits l = w_bits w"
    "w_mask l = w_mask w"
    by blast
  have "Matches l (w_ip l) = Inr True" using l(2) by (rule wf_Matches_cursor)
  moreover have "Matches w (w_ip l) = Matches l (w_ip l)"
    unfolding Matches_def l(3,4) by (rule refl)
  ultimately show ?thesis using l(1) by (simp add: Wildcard_IP_def)
qed

text \<open>
  Claim C4, and where the code leaves it. For a well-formed Wildcard \<open>w\<close> built by
  \<open>New\<close> from an address and a wildcard mask of the same family, \<open>Matches w x\<close> is
  true exactly when \<open>x AND mask = ip AND mask\<close>, \<open>mask\<close> being the complement of
  the wildcard mask; the addresses of \<open>First\<close> and \<open>Last\<close> match. Outside the
  well-formed Wildcards the claim fails on the code. For 2001:db8::1 with the wildcard
  mask \<open>ffff:ffff:ffff:ffff:ffff::\<close> the care mask is IPv4-mapped and \<open>New\<close>
  collapses it to 255.255.255.255: \<open>::1\<close> agrees with the base on every care bit and
  \<open>Matches\<close> is false. For \<open>1::ffff:1.2.3.4\<close> with the wildcard mask \<open>1::\<close> the
  fixed bits are IPv4-mapped: \<open>First\<close> holds the 4-byte 1.2.3.4 beside the 16-byte
  mask, \<open>Matches\<close> of its address panics, and so does \<open>Last\<close>.
\<close>

theorem Matches_characterised:
  assumes "New ip wc = Inr w" and "well_formed w" and "length (IP ip) = length wc"
    and "length (IP x) = length wc"
  shows "Matches w x
           = Inr (map2 (\<lambda>x y. x AND y) (IP x) (Complement wc)
                  = map2 (\<lambda>x y. x AND y) (IP ip) (Complement wc))
       \<and> Matches w (Wildcard_IP (First w)) = Inr True
       \<and> (\<exists>l. Last w = Inr l \<and> Matches w (Wildcard_IP l) = Inr True)
       \<and> (case New [0x20, 0x01, 0x0d, 0xb8, 0, 0, 0, 0, 0, 0, 0, 0, 0, 0, 0, 1]
                    [0xff, 0xff, 0xff, 0xff, 0xff, 0xff, 0xff, 0xff, 0xff, 0xff, 0, 0, 0, 0, 0, 0] of
            Inl e \<Rightarrow> False
          | Inr w \<Rightarrow>
              map2 (\<lambda>x y. x AND y) [0, 0, 0, 0, 0, 0, 0, 0, 0, 0, 0, 0, 0, 0, 0, 1]
                (Complement [0xff, 0xff, 0xff, 0xff, 0xff, 0xff, 0xff, 0xff, 0xff, 0xff, 0, 0, 0, 0, 0, 0])
              = map2 (\<lambda>x y. x AND y) [0x20, 0x01, 0x0d, 0xb8, 0, 0, 0, 0, 0, 0, 0, 0, 0, 0, 0, 1]
                (Complement [0xff, 0xff, 0xff, 0xff, 0xff, 0xff, 0xff, 0xff, 0xff, 0xff, 0, 0, 0, 0, 0, 0])
              \<and> Matches w [0, 0, 0, 0, 0, 0, 0, 0, 0, 0, 0, 0, 0, 0, 0, 1] = Inr False)
       \<and> (case New [0, 1, 0, 0, 0, 0, 0, 0, 0, 0, 0xff, 0xff, 1, 2, 3, 4]
                    [0, 1, 0, 0, 0, 0, 0, 0, 0, 0, 0, 0, 0, 0, 0, 0] of
            Inl e \<Rightarrow> False
          | Inr w \<Rightarrow>
              Wildcard_IP (First w) = [1, 2, 3, 4]
              \<and> Matches w (Wildcard_IP (First w)) = Inl IndexOutOfRange
              \<and> Last w = Inl IndexOutOfRange)"
proof -
  have m: "w_mask w = Complement wc" using assms(1-3) by (rule New_mask)
  have i: "w_ip w = IP ip" using New_fields[OF assms(1)] by simp
  have b: "w_bits w = map2 (\<lambda>x y. x AND y) (IP ip) (Complement wc)"
    using assms(2) i m by (simp add: well_formed_def)
  have "length (IP x) = length (w_mask w)" using assms(4) m by (simp add: Complement_map)
  then have "Matches w x
           = Inr (map2 (\<lambda>x y. x AND y) (IP x) (Complement wc)
                  = map2 (\<lambda>x y. x AND y) (IP ip) (Complement wc))"
    using wf_Matches[OF assms(2), of x] m b by simp
  then show ?thesis
    using wf_Matches_First[OF assms(2)] wf_Matches_Last[OF assms(2)] Matches_fails by blast
qed

theorem Matches_characterised_witness:
  "New [0, 0, 0, 0, 0, 0, 0, 0, 0, 0, 0xff, 0xff, 192, 0, 2, 0] [0, 0, 0, 254]
     = Inr \<lparr>w_ip = [192, 0, 2, 0], w_bits = [192, 0, 2, 0], w_mask = [255, 255, 255, 1]\<rparr>
   \<and> well_formed \<lparr>w_ip = [192, 0, 2, 0], w_bits = [192, 0, 2, 0], w_mask = [255, 255, 255, 1]\<rparr>
   \<and> length (IP [0, 0, 0, 0, 0, 0, 0, 0, 0, 0, 0xff, 0xff, 192, 0, 2, 0]) = length [0, 0, 0, 254 :: byte]
   \<and> length (IP [0, 0, 0, 0, 0, 0, 0, 0, 0, 0, 0xff, 0xff, 192, 0, 2, 2]) = length [0, 0, 0, 254 :: byte]
   \<and> Matches \<lparr>w_ip = [192, 0, 2, 0], w_bits = [192, 0, 2, 0], w_mask = [255, 255, 255, 1]\<rparr>
        [0, 0, 0, 0, 0, 0, 0, 0, 0, 0, 0xff, 0xff, 192, 0, 2, 2] = Inr True
   \<and> Matches \<lparr>w_ip = [192, 0, 2, 0], w_bits = [192, 0, 2, 0], w_mask = [255, 255, 255, 1]\<rparr>
        (Wildcard_IP (First \<lparr>w_ip = [192, 0, 2, 0], w_bits = [192, 0, 2, 0], w_mask = [255, 255, 255, 1]\<rparr>))
       = Inr True"
proof -
  have n: "New [0, 0, 0, 0, 0, 0, 0, 0, 0, 0, 0xff, 0xff, 192, 0, 2, 0] [0, 0, 0, 254]
     = Inr \<lparr>w_ip = [192, 0, 2, 0], w_bits = [192, 0, 2, 0], w_mask = [255, 255, 255, 1]\<rparr>"
    by code_simp
  have wf: "well_formed \<lparr>w_ip = [192, 0, 2, 0], w_bits = [192, 0, 2, 0], w_mask = [255, 255, 255, 1]\<rparr>"
    by code_simp
  have li: "length (IP [0, 0, 0, 0, 0, 0, 0, 0, 0, 0, 0xff, 0xff, 192, 0, 2, 0]) = length [0, 0, 0, 254 :: byte]"
    by code_simp
  have lx: "length (IP [0, 0, 0, 0, 0, 0, 0, 0, 0, 0, 0xff, 0xff, 192, 0, 2, 2]) = length [0, 0, 0, 254 :: byte]"
    by code_simp
  have e: "(map2 (\<lambda>x y. x AND y) (IP [0, 0, 0, 0, 0, 0, 0, 0, 0, 0, 0xff, 0xff, 192, 0, 2, 2])
              (Complement [0, 0, 0, 254])
            = map2 (\<lambda>x y. x AND y) (IP [0, 0, 0, 0, 0, 0, 0, 0, 0, 0, 0xff, 0xff, 192, 0, 2, 0])
              (Complement [0, 0, 0, 254])) = True"
    by code_simp
  from Matches_characterised [OF n wf li lx] n wf li lx e show ?thesis by simp
qed

text \<open>
  Claim C10, and where the code leaves it. \<open>New\<close> builds a well-formed Wildcard from
  an address and a wildcard mask of 4 bytes, and of 16 bytes when no IPv4-mapped value
  is involved. On a well-formed Wildcard the cursor under the care mask is the stored
  fixed bits and \<open>Matches\<close> of the cursor is true; \<open>First\<close>, \<open>Last\<close>, \<open>Next\<close>
  and \<open>Prev\<close> give well-formed Wildcards again, \<open>Next\<close> and \<open>Prev\<close> leaving the
  fixed bits and the mask as they are. Outside, the claim fails on the code: with all
  128 bits don't-care, \<open>Next\<close> from \<open>::fffe:ffff:ffff\<close> and \<open>Prev\<close> from
  \<open>0:0:0:0:1::\<close> lead to an IPv4-mapped cursor, and \<open>Matches\<close> of that cursor panics.
\<close>

theorem cursor_invariant:
  assumes "length (IP ip) = length wc"
    and "length wc = 4
         \<or> (length wc = 16 \<and> take 12 wc \<noteq> v4InV6Prefix
            \<and> take 12 (Complement wc) \<noteq> v4InV6Prefix
            \<and> map2 (\<lambda>x y. x AND y) v4InV6Prefix (take 12 (Complement wc))
                \<noteq> take 12 (map2 (\<lambda>x y. x AND y) (IP ip) (Complement wc)))"
    and "well_formed w"
  shows "(\<exists>v. New ip wc = Inr v \<and> well_formed v)
       \<and> map2 (\<lambda>x y. x AND y) (Wildcard_IP w) (w_mask w) = w_bits w
       \<and> Matches w (Wildcard_IP w) = Inr True
       \<and> well_formed (First w)
       \<and> (\<exists>l. Last w = Inr l \<and> well_formed l)
       \<and> (\<exists>a w'. Next w = Inr (a, w') \<and> a = Wildcard_IP w' \<and> well_formed w'
                  \<and> w_bits w' = w_bits w \<and> w_mask w' = w_mask w)
       \<and> (\<exists>a w'. Prev w = Inr (a, w') \<and> a = Wildcard_IP w' \<and> well_formed w'
                  \<and> w_bits w' = w_bits w \<and> w_mask w' = w_mask w)
       \<and> (case New [0, 0, 0, 0, 0, 0, 0, 0, 0, 0, 0xff, 0xfe, 0xff, 0xff, 0xff, 0xff] (replicate 16 0xff) of
            Inl e \<Rightarrow> False
          | Inr w \<Rightarrow>
              (case Next w of
                 Inl e \<Rightarrow> False
               | Inr (a, w') \<Rightarrow> a = [0, 0, 0, 0, 0, 0, 0, 0, 0, 0, 0xff, 0xff, 0, 0, 0, 0]
                                \<and> Matches w' (Wildcard_IP w') = Inl IndexOutOfRange))
       \<and> (case New [0, 0, 0, 0, 0, 0, 0, 0, 0, 1, 0, 0, 0, 0, 0, 0] (replicate 16 0xff) of
            Inl e \<Rightarrow> False
          | Inr w \<Rightarrow>
              (case Prev w of
                 Inl e \<Rightarrow> False
               | Inr (a, w') \<Rightarrow> a = [0, 0, 0, 0, 0, 0, 0, 0, 0, 0, 0xff, 0xff, 0xff, 0xff, 0xff, 0xff]
                                \<and> Matches w' (Wildcard_IP w') = Inl IndexOutOfRange))"
proof -
  have n: "\<exists>v. New ip wc = Inr v \<and> well_formed v"
    using wf_New[OF assms(1,2)] by blast
  have i: "map2 (\<lambda>x y. x AND y) (Wildcard_IP w) (w_mask w) = w_bits w"
    using assms(3) by (simp add: well_formed_def Wildcard_IP_def)
  have m: "Matches w (Wildcard_IP w) = Inr True"
    using wf_Matches_cursor[OF assms(3)] by (simp add: Wildcard_IP_def)
  have f: "well_formed (First w)" using assms(3) by (rule wf_First(2))
  have l: "\<exists>l. Last w = Inr l \<and> well_formed l" using wf_Last[OF assms(3)] by blast
  have nx: "\<exists>a w'. Next w = Inr (a, w') \<and> a = Wildcard_IP w' \<and> well_formed w'
                  \<and> w_bits w' = w_bits w \<and> w_mask w' = w_mask w"
  proof -
    from wf_Next[OF assms(3)] obtain ip' where "Next w = Inr (ip', w\<lparr>w_ip := ip'\<rparr>)"
      "well_formed (w\<lparr>w_ip := ip'\<rparr>)" by blast
    then show ?thesis by (intro exI[of _ ip'] exI[of _ "w\<lparr>w_ip := ip'\<rparr>"]) (simp add: Wildcard_IP_def)
  qed
  have pv: "\<exists>a w'. Prev w = Inr (a, w') \<and> a = Wildcard_IP w' \<and> well_formed w'
                  \<and> w_bits w' = w_bits w \<and> w_mask w' = w_mask w"
  proof -
    from wf_Prev[OF assms(3)] obtain ip' where "Prev w = Inr (ip', w\<lparr>w_ip := ip'\<rparr>)"
      "well_formed (w\<lparr>w_ip := ip'\<rparr>)" by blast
    then show ?thesis by (intro exI[of _ ip'] exI[of _ "w\<lparr>w_ip := ip'\<rparr>"]) (simp add: Wildcard_IP_def)
  qed
  from n i m f l nx pv Matches_cursor_fails show ?thesis by blast
qed

theorem cursor_invariant_witness:
  "length (IP [0, 0, 0, 0, 0, 0, 0, 0, 0, 0, 0xff, 0xff, 192, 0, 2, 128]) = length [0, 0, 0, 254 :: byte]
   \<and> length [0, 0, 0, 254 :: byte] = 4
   \<and> New [0, 0, 0, 0, 0, 0, 0, 0, 0, 0, 0xff, 0xff, 192, 0, 2, 128] [0, 0, 0, 254]
       = Inr \<lparr>w_ip = [192, 0, 2, 128], w_bits = [192, 0, 2, 0], w_mask = [255, 255, 255, 1]\<rparr>
   \<and> well_formed \<lparr>w_ip = [192, 0, 2, 128], w_bits = [192, 0, 2, 0], w_mask = [255, 255, 255, 1]\<rparr>
   \<and> Matches \<lparr>w_ip = [192, 0, 2, 128], w_bits = [192, 0, 2, 0], w_mask = [255, 255, 255, 1]\<rparr>
        [192, 0, 2, 128] = Inr True
   \<and> Next \<lparr>w_ip = [192, 0, 2, 128], w_bits = [192, 0, 2, 0], w_mask = [255, 255, 255, 1]\<rparr>
       = Inr ([192, 0, 2, 130],
              \<lparr>w_ip = [192, 0, 2, 130], w_bits = [192, 0, 2, 0], w_mask = [255, 255, 255, 1]\<rparr>)
   \<and> well_formed \<lparr>w_ip = [192, 0, 2, 130], w_bits = [192, 0, 2, 0], w_mask = [255, 255, 255, 1]\<rparr>
   \<and> Prev \<lparr>w_ip = [192, 0, 2, 128], w_bits = [192, 0, 2, 0], w_mask = [255, 255, 255, 1]\<rparr>
       = Inr ([192, 0, 2, 126],
              \<lparr>w_ip = [192, 0, 2, 126], w_bits = [192, 0, 2, 0], w_mask = [255, 255, 255, 1]\<rparr>)"
proof -
  let ?w = "\<lparr>w_ip = [192, 0, 2, 128], w_bits = [192, 0, 2, 0], w_mask = [255, 255, 255, 1 :: byte]\<rparr>"
  have a: "length (IP [0, 0, 0, 0, 0, 0, 0, 0, 0, 0, 0xff, 0xff, 192, 0, 2, 128]) = length [0, 0, 0, 254 :: byte]"
    by code_simp
  have b: "length [0, 0, 0, 254 :: byte] = 4" by simp
  have wf: "well_formed ?w" by code_simp
  have n: "New [0, 0, 0, 0, 0, 0, 0, 0, 0, 0, 0xff, 0xff, 192, 0, 2, 128] [0, 0, 0, 254] = Inr ?w"
    by code_simp
  have nx: "Next ?w = Inr ([192, 0, 2, 130],
              \<lparr>w_ip = [192, 0, 2, 130], w_bits = [192, 0, 2, 0], w_mask = [255, 255, 255, 1]\<rparr>)"
    by code_simp
  have pv: "Prev ?w = Inr ([192, 0, 2, 126],
              \<lparr>w_ip = [192, 0, 2, 126], w_bits = [192, 0, 2, 0], w_mask = [255, 255, 255, 1]\<rparr>)"
    by code_simp
  from cursor_invariant [OF a disjI1, OF b wf] a b wf n nx pv show ?thesis
    by (auto simp: Wildcard_IP_def)
qed

end
